theory Spec2Isabelle
  imports Main "HOL-Library.Multiset"
begin

section \<open>Cards\<close>

text \<open>
  A card of \<^verbatim>\<open>card-utils.mjs\<close> is the object \<^verbatim>\<open>{ suit, rank }\<close>; the JSDoc typedefs
  \<^verbatim>\<open>Suit\<close> and \<^verbatim>\<open>Rank\<close> list the four suit strings and the thirteen rank strings.
  \<^verbatim>\<open>createDeck\<close> builds exactly one object for each pair, so reference equality
  (\<^verbatim>\<open>===\<close>, \<^verbatim>\<open>indexOf\<close>, \<^verbatim>\<open>findIndex\<close>) on cards is modelled by equality of values.
  A JavaScript array slot that may hold \<^verbatim>\<open>undefined\<close> is a \<open>card option\<close>, with
  \<open>None\<close> for \<^verbatim>\<open>undefined\<close>.
\<close>

datatype suit = Hearts | Diamonds | Clubs | Spades

datatype rank = RA | R2 | R3 | R4 | R5 | R6 | R7 | R8 | R9 | R10 | RJ | RQ | RK

record card =
  suit :: suit
  rank :: rank

definition createCard :: "suit \<Rightarrow> rank \<Rightarrow> card" where
  "createCard s r = \<lparr>suit = s, rank = r\<rparr>"

definition suits :: "suit list" where
  "suits = [Hearts, Diamonds, Clubs, Spades]"

definition ranks :: "rank list" where
  "ranks = [RA, R2, R3, R4, R5, R6, R7, R8, R9, R10, RJ, RQ, RK]"

text \<open>\<^verbatim>\<open>rankToNumber\<close>: the index of the rank in \<^verbatim>\<open>rankOrder\<close>.\<close>

fun rankToNumber :: "rank \<Rightarrow> nat" where
  "rankToNumber RA = 0"
| "rankToNumber R2 = 1"
| "rankToNumber R3 = 2"
| "rankToNumber R4 = 3"
| "rankToNumber R5 = 4"
| "rankToNumber R6 = 5"
| "rankToNumber R7 = 6"
| "rankToNumber R8 = 7"
| "rankToNumber R9 = 8"
| "rankToNumber R10 = 9"
| "rankToNumber RJ = 10"
| "rankToNumber RQ = 11"
| "rankToNumber RK = 12"

text \<open>
  \<^verbatim>\<open>calculateCardPoints\<close>: \<^verbatim>\<open>"A"\<close> is 1, \<^verbatim>\<open>"J"\<close>, \<^verbatim>\<open>"Q"\<close>, \<^verbatim>\<open>"K"\<close> are 10, and
  \<^verbatim>\<open>parseInt(card.rank) || 0\<close> reads the digits of the other ranks.
\<close>

definition calculateCardPoints :: "card \<Rightarrow> nat" where
  "calculateCardPoints c =
     (if rank c = RA then 1
      else if rank c \<in> set [RJ, RQ, RK] then 10
      else (case rank c of
              R2 \<Rightarrow> 2 | R3 \<Rightarrow> 3 | R4 \<Rightarrow> 4 | R5 \<Rightarrow> 5 | R6 \<Rightarrow> 6
            | R7 \<Rightarrow> 7 | R8 \<Rightarrow> 8 | R9 \<Rightarrow> 9 | R10 \<Rightarrow> 10 | _ \<Rightarrow> 0))"

section \<open>Meld validator\<close>

text \<open>\<^verbatim>\<open>cards[0]?.rank\<close>: the rank of the first slot, \<^verbatim>\<open>undefined\<close> when there is none.\<close>

definition firstRank :: "card option list \<Rightarrow> rank option" where
  "firstRank cards = (case cards of [] \<Rightarrow> None | c # _ \<Rightarrow> map_option rank c)"

definition firstSuit :: "card list \<Rightarrow> suit option" where
  "firstSuit cards = (case cards of [] \<Rightarrow> None | c # _ \<Rightarrow> Some (suit c))"

text \<open>\<^verbatim>\<open>card && card.rank === cards[0]?.rank\<close>\<close>

definition sameRankAsFirst :: "card option list \<Rightarrow> card option \<Rightarrow> bool" where
  "sameRankAsFirst cards c =
     (case c of None \<Rightarrow> False | Some c' \<Rightarrow> Some (rank c') = firstRank cards)"

definition isThreeOfAKind :: "card option list \<Rightarrow> bool" where
  "isThreeOfAKind cards = (length cards = 3 \<and> list_all (sameRankAsFirst cards) cards)"

definition isFourOfAKind :: "card option list \<Rightarrow> bool" where
  "isFourOfAKind cards = (length cards = 4 \<and> list_all (sameRankAsFirst cards) cards)"

text \<open>
  The \<^verbatim>\<open>consecutive\<close> test of \<^verbatim>\<open>isStraightFlush\<close>: every element but the first is one
  rank above its predecessor.
\<close>

fun consecutive :: "card list \<Rightarrow> bool" where
  "consecutive (a # b # cs) =
     (int (rankToNumber (rank b)) - int (rankToNumber (rank a)) = 1 \<and> consecutive (b # cs))"
| "consecutive _ = True"

text \<open>
  \<^verbatim>\<open>[...cards].sort((a, b) => rankToNumber(a.rank) - rankToNumber(b.rank))\<close>:
  \<^verbatim>\<open>Array.prototype.sort\<close> is stable, as is \<open>sort_key\<close>.
\<close>

definition sortByRank :: "card list \<Rightarrow> card list" where
  "sortByRank cards = sort_key (\<lambda>c. rankToNumber (rank c)) cards"

text \<open>The cards of an array whose slots are all defined.\<close>

definition definedCards :: "card option list \<Rightarrow> card list" where
  "definedCards cards = concat (map (\<lambda>c. case c of None \<Rightarrow> [] | Some c' \<Rightarrow> [c']) cards)"

definition isStraightFlush :: "card option list \<Rightarrow> bool" where
  "isStraightFlush cards =
     (if length cards < 3 \<or> \<not> list_all (\<lambda>c. c \<noteq> None) cards then False
      else
        let sortedCards = sortByRank (definedCards cards);
            sameSuit = list_all (\<lambda>c. Some (suit c) = firstSuit sortedCards) sortedCards
        in sameSuit \<and> consecutive sortedCards)"

definition isValidMeld :: "card option list \<Rightarrow> bool" where
  "isValidMeld cards = (isThreeOfAKind cards \<or> isFourOfAKind cards \<or> isStraightFlush cards)"

section \<open>Scoring engine\<close>


text \<open>
  \<^verbatim>\<open>cards.splice(k, 1)\<close> for an index \<open>k\<close> that is not negative: the element at \<open>k\<close> is
  removed, and nothing is removed when \<open>k\<close> is beyond the end.
\<close>

definition removeAt :: "nat \<Rightarrow> 'a list \<Rightarrow> 'a list" where
  "removeAt k xs = take k xs @ drop (Suc k) xs"

text \<open>
  \<^verbatim>\<open>findAndRemoveMeld\<close>, first part: the three nested loops over \<open>i < j < k\<close> that look
  for three cards of one rank. \<open>setLoopI\<close>, \<open>setLoopJ\<close> and \<open>setLoopK\<close> are the loops from
  the outermost to the innermost, each started at its loop variable; the result is the
  first triple found, or \<open>None\<close> when the loops run out.
\<close>

definition sameRank3 :: "card list \<Rightarrow> nat \<Rightarrow> nat \<Rightarrow> nat \<Rightarrow> bool" where
  "sameRank3 cards i j k =
     (rank (cards ! i) = rank (cards ! j) \<and> rank (cards ! j) = rank (cards ! k))"

function setLoopK :: "card list \<Rightarrow> nat \<Rightarrow> nat \<Rightarrow> nat \<Rightarrow> (nat \<times> nat \<times> nat) option" where
  "setLoopK cards i j k =
     (if k < length cards then
        (if sameRank3 cards i j k then Some (i, j, k) else setLoopK cards i j (Suc k))
      else None)"
  by pat_completeness auto
termination
  by (relation "measure (\<lambda>(cards, i, j, k). length cards - k)") auto

function setLoopJ :: "card list \<Rightarrow> nat \<Rightarrow> nat \<Rightarrow> (nat \<times> nat \<times> nat) option" where
  "setLoopJ cards i j =
     (if j + 1 < length cards then
        (case setLoopK cards i j (Suc j) of
           Some t \<Rightarrow> Some t
         | None \<Rightarrow> setLoopJ cards i (Suc j))
      else None)"
  by pat_completeness auto
termination
  by (relation "measure (\<lambda>(cards, i, j). length cards - j)") auto

function setLoopI :: "card list \<Rightarrow> nat \<Rightarrow> (nat \<times> nat \<times> nat) option" where
  "setLoopI cards i =
     (if i + 2 < length cards then
        (case setLoopJ cards i (Suc i) of
           Some t \<Rightarrow> Some t
         | None \<Rightarrow> setLoopI cards (Suc i))
      else None)"
  by pat_completeness auto
termination
  by (relation "measure (\<lambda>(cards, i). length cards - i)") auto

declare setLoopK.simps [simp del] setLoopJ.simps [simp del] setLoopI.simps [simp del]

text \<open>
  Second part: the loop over the rank-sorted copy that looks for three neighbours of
  one suit with consecutive ranks.
\<close>

definition isRunAt :: "card list \<Rightarrow> nat \<Rightarrow> bool" where
  "isRunAt s i =
     (suit (s ! i) = suit (s ! (i + 1)) \<and> suit (s ! (i + 1)) = suit (s ! (i + 2)) \<and>
      int (rankToNumber (rank (s ! (i + 1)))) - int (rankToNumber (rank (s ! i))) = 1 \<and>
      int (rankToNumber (rank (s ! (i + 2)))) - int (rankToNumber (rank (s ! (i + 1)))) = 1)"

function runLoop :: "card list \<Rightarrow> nat \<Rightarrow> nat option" where
  "runLoop sortedCards i =
     (if i + 2 < length sortedCards then
        (if isRunAt sortedCards i then Some i else runLoop sortedCards (Suc i))
      else None)"
  by pat_completeness auto
termination
  by (relation "measure (\<lambda>(s, i). length s - i)") auto

declare runLoop.simps [simp del]

text \<open>
  \<^verbatim>\<open>cards.splice(cards.indexOf(x), 1)\<close>: the first occurrence of \<open>x\<close> is removed; when
  \<open>x\<close> is absent \<^verbatim>\<open>indexOf\<close> is -1 and the last element is removed.
\<close>

definition spliceIndexOf :: "'a \<Rightarrow> 'a list \<Rightarrow> 'a list" where
  "spliceIndexOf x cards = (if x \<in> set cards then remove1 x cards else butlast cards)"

text \<open>
  \<^verbatim>\<open>findAndRemoveMeld\<close> returns the meld and mutates \<^verbatim>\<open>cards\<close>; the model returns the meld
  with the remaining cards, and \<open>None\<close> for \<^verbatim>\<open>null\<close>.
\<close>

definition findAndRemoveMeld :: "card list \<Rightarrow> (card list \<times> card list) option" where
  "findAndRemoveMeld cards =
     (case setLoopI cards 0 of
        Some (i, j, k) \<Rightarrow>
          Some ([cards ! i, cards ! j, cards ! k], removeAt i (removeAt j (removeAt k cards)))
      | None \<Rightarrow>
          let sortedCards = sortByRank cards in
          (case runLoop sortedCards 0 of
             Some i \<Rightarrow>
               Some ([sortedCards ! i, sortedCards ! (i + 1), sortedCards ! (i + 2)],
                     spliceIndexOf (sortedCards ! i)
                       (spliceIndexOf (sortedCards ! (i + 1))
                          (spliceIndexOf (sortedCards ! (i + 2)) cards)))
           | None \<Rightarrow> None))"

text \<open>The loops return indices in range, so each extraction removes three cards.\<close>

lemma setLoopK_range:
  "setLoopK cards i j k = Some (a, b, c) \<Longrightarrow> a = i \<and> b = j \<and> k \<le> c \<and> c < length cards"
proof (induction cards i j k rule: setLoopK.induct)
  case (1 cards i j k)
  from "1.prems" have k: "k < length cards"
    by (subst (asm) setLoopK.simps) (simp split: if_splits)
  show ?case
  proof (cases "sameRank3 cards i j k")
    case True
    with "1.prems" k show ?thesis by (subst (asm) setLoopK.simps) simp
  next
    case False
    with "1.prems" k have "setLoopK cards i j (Suc k) = Some (a, b, c)"
      by (subst (asm) setLoopK.simps) simp
    from "1.IH"[OF k False this] show ?thesis by simp
  qed
qed

lemma setLoopJ_range:
  "setLoopJ cards i j = Some (a, b, c) \<Longrightarrow> a = i \<and> j \<le> b \<and> b < c \<and> c < length cards"
proof (induction cards i j rule: setLoopJ.induct)
  case (1 cards i j)
  from "1.prems" have j: "j + 1 < length cards"
    by (subst (asm) setLoopJ.simps) (simp split: if_splits)
  show ?case
  proof (cases "setLoopK cards i j (Suc j)")
    case None
    with "1.prems" j have "setLoopJ cards i (Suc j) = Some (a, b, c)"
      by (subst (asm) setLoopJ.simps) simp
    from "1.IH"[OF j None this] show ?thesis by simp
  next
    case (Some t)
    with "1.prems" j have "setLoopK cards i j (Suc j) = Some (a, b, c)"
      by (subst (asm) setLoopJ.simps) simp
    from setLoopK_range[OF this] show ?thesis by simp
  qed
qed

lemma setLoopI_range:
  "setLoopI cards i = Some (a, b, c) \<Longrightarrow> i \<le> a \<and> a < b \<and> b < c \<and> c < length cards"
proof (induction cards i rule: setLoopI.induct)
  case (1 cards i)
  from "1.prems" have i: "i + 2 < length cards"
    by (subst (asm) setLoopI.simps) (simp split: if_splits)
  show ?case
  proof (cases "setLoopJ cards i (Suc i)")
    case None
    with "1.prems" i have "setLoopI cards (Suc i) = Some (a, b, c)"
      by (subst (asm) setLoopI.simps) simp
    from "1.IH"[OF i None this] show ?thesis by simp
  next
    case (Some t)
    with "1.prems" i have "setLoopJ cards i (Suc i) = Some (a, b, c)"
      by (subst (asm) setLoopI.simps) simp
    from setLoopJ_range[OF this] show ?thesis by simp
  qed
qed

lemma length_removeAt: "k < length xs \<Longrightarrow> length (removeAt k xs) = length xs - 1"
  by (auto simp: removeAt_def)

lemma runLoop_range: "runLoop s i = Some a \<Longrightarrow> i \<le> a \<and> a + 2 < length s"
proof (induction s i rule: runLoop.induct)
  case (1 s i)
  from "1.prems" have i: "i + 2 < length s"
    by (subst (asm) runLoop.simps) (simp split: if_splits)
  show ?case
  proof (cases "isRunAt s i")
    case True
    with "1.prems" i show ?thesis by (subst (asm) runLoop.simps) simp
  next
    case False
    with "1.prems" i have "runLoop s (Suc i) = Some a"
      by (subst (asm) runLoop.simps) simp
    from "1.IH"[OF i False this] show ?thesis by simp
  qed
qed

lemma length_spliceIndexOf: "length (spliceIndexOf x xs) = length xs - 1"
  by (auto simp: spliceIndexOf_def length_remove1)

lemma findAndRemoveMeld_length:
  assumes "findAndRemoveMeld cards = Some (m, rest)"
  shows "length rest + 3 = length cards"
proof (cases "setLoopI cards 0")
  case (Some t)
  obtain i j k where t: "t = (i, j, k)" by (cases t) auto
  from setLoopI_range[of cards 0 i j k] Some t have "i < j" "j < k" "k < length cards" by auto
  moreover from assms Some t have "rest = removeAt i (removeAt j (removeAt k cards))"
    by (simp add: findAndRemoveMeld_def)
  ultimately show ?thesis by (simp add: length_removeAt)
next
  case None
  with assms obtain i where r: "runLoop (sortByRank cards) 0 = Some i"
    by (auto simp: findAndRemoveMeld_def Let_def split: option.splits)
  from runLoop_range[OF r] have "3 \<le> length cards" by (simp add: sortByRank_def)
  moreover from assms None r have "rest = spliceIndexOf (sortByRank cards ! i)
                       (spliceIndexOf (sortByRank cards ! (i + 1))
                          (spliceIndexOf (sortByRank cards ! (i + 2)) cards))"
    by (simp add: findAndRemoveMeld_def Let_def)
  ultimately show ?thesis by (simp add: length_spliceIndexOf)
qed

text \<open>
  \<^verbatim>\<open>calculateHandPoints\<close>: the \<^verbatim>\<open>while (true)\<close> loop over \<^verbatim>\<open>allCards\<close> and \<^verbatim>\<open>allMelds\<close>,
  which ends because every round removes three cards, and the \<^verbatim>\<open>reduce\<close> over what
  is left.
\<close>

function chpLoop :: "card list \<Rightarrow> card list list \<Rightarrow> card list \<times> card list list" where
  "chpLoop allCards allMelds =
     (case findAndRemoveMeld allCards of
        None \<Rightarrow> (allCards, allMelds)
      | Some (meldFound, rest) \<Rightarrow> chpLoop rest (allMelds @ [meldFound]))"
  by pat_completeness auto
termination
proof (relation "measure (\<lambda>(allCards, allMelds). length allCards)")
  show "wf (measure (\<lambda>(allCards, allMelds). length allCards))" by simp
next
  fix allCards :: "card list" and allMelds :: "card list list" and x2 x y
  assume "findAndRemoveMeld allCards = Some x2" "(x, y) = x2"
  then have "findAndRemoveMeld allCards = Some (x, y)" by simp
  from findAndRemoveMeld_length[OF this]
  show "((y, allMelds @ [x]), allCards, allMelds) \<in> measure (\<lambda>(allCards, allMelds). length allCards)"
    by simp
qed

declare chpLoop.simps [simp del]

definition calculateHandPoints :: "card list \<Rightarrow> card list list \<Rightarrow> nat" where
  "calculateHandPoints hand secretMelds =
     (let (allCards, allMelds) = chpLoop hand secretMelds
      in foldl (\<lambda>total card. total + calculateCardPoints card) 0 allCards)"






section \<open>JavaScript arrays\<close>

text \<open>
  \<^verbatim>\<open>xs[i]\<close> for a number \<open>i\<close> sent by a client: the element when \<open>0 \<le> i < length\<close>,
  \<^verbatim>\<open>undefined\<close> otherwise (also for a negative index). Indices are modelled as
  integers; an index array is an \<open>int list\<close>.
\<close>

definition nthJs :: "'a list \<Rightarrow> int \<Rightarrow> 'a option" where
  "nthJs xs i = (if 0 \<le> i \<and> i < int (length xs) then Some (xs ! nat i) else None)"

definition nthNat :: "'a list \<Rightarrow> nat \<Rightarrow> 'a option" where
  "nthNat xs i = (if i < length xs then Some (xs ! i) else None)"

text \<open>
  \<^verbatim>\<open>xs.splice(start, 1)\<close>: a negative \<open>start\<close> counts from the end and is clamped to 0,
  a \<open>start\<close> beyond the end is clamped to the length, and then nothing is removed.
  \<open>splice1\<close> is the array afterwards, \<open>spliced1\<close> is \<^verbatim>\<open>xs.splice(start, 1)[0]\<close>.
\<close>

definition spliceStart :: "nat \<Rightarrow> int \<Rightarrow> nat" where
  "spliceStart len start =
     (if start < 0 then nat (max (int len + start) 0) else min (nat start) len)"

definition splice1 :: "int \<Rightarrow> 'a list \<Rightarrow> 'a list" where
  "splice1 start xs = removeAt (spliceStart (length xs) start) xs"

definition spliced1 :: "int \<Rightarrow> 'a list \<Rightarrow> 'a option" where
  "spliced1 start xs = nthNat xs (spliceStart (length xs) start)"

text \<open>
  \<^verbatim>\<open>cardIndices.sort((a, b) => b - a).forEach(index => hand.splice(index, 1))\<close>
\<close>

definition sortDescending :: "int list \<Rightarrow> int list" where
  "sortDescending indices = rev (sort indices)"

definition removeIndices :: "'a list \<Rightarrow> int list \<Rightarrow> 'a list" where
  "removeIndices hand indices = fold splice1 (sortDescending indices) hand"

text \<open>\<^verbatim>\<open>xs.pop()\<close>: the last element (\<^verbatim>\<open>undefined\<close> on an empty array) and the rest.\<close>

definition pop :: "'a list \<Rightarrow> 'a option \<times> 'a list" where
  "pop xs = (if xs = [] then (None, []) else (Some (last xs), butlast xs))"

text \<open>\<^verbatim>\<open>xs.findIndex(p)\<close>, with \<open>None\<close> for the result -1.\<close>

fun findIndex :: "('a \<Rightarrow> bool) \<Rightarrow> 'a list \<Rightarrow> nat option" where
  "findIndex P [] = None"
| "findIndex P (x # xs) = (if P x then Some 0 else map_option Suc (findIndex P xs))"

section \<open>Deck\<close>

text \<open>
  \<^verbatim>\<open>Math.floor(Math.random() * (i + 1))\<close> is an integer from 0 to \<open>i\<close>. The random
  source is a function \<open>r\<close> from the loop index to a number, read as \<open>r i mod (i + 1)\<close>,
  so that every choice in that range arises from some \<open>r\<close>.
\<close>

type_synonym rng = "nat \<Rightarrow> nat"

text \<open>\<^verbatim>\<open>[xs[i], xs[j]] = [xs[j], xs[i]]\<close>\<close>

definition swap :: "nat \<Rightarrow> nat \<Rightarrow> 'a list \<Rightarrow> 'a list" where
  "swap i j xs = (xs[i := xs ! j])[j := xs ! i]"

text \<open>\<^verbatim>\<open>for (let i = n; i > 0; i--) { j = ...; swap }\<close>\<close>

fun shuffleLoop :: "rng \<Rightarrow> nat \<Rightarrow> 'a list \<Rightarrow> 'a list" where
  "shuffleLoop r 0 xs = xs"
| "shuffleLoop r (Suc i) xs = shuffleLoop r i (swap (Suc i) (r (Suc i) mod (Suc i + 1)) xs)"

definition shuffleDeck :: "rng \<Rightarrow> 'a list \<Rightarrow> 'a list" where
  "shuffleDeck r deck = shuffleLoop r (length deck - 1) deck"

definition orderedDeck :: "card list" where
  "orderedDeck = concat (map (\<lambda>s. map (\<lambda>r. \<lparr>suit = s, rank = r\<rparr>) ranks) suits)"

definition createDeck :: "rng \<Rightarrow> card list" where
  "createDeck r = shuffleDeck r orderedDeck"

text \<open>
  \<^verbatim>\<open>dealCards\<close>: one card from the end of the deck to each hand in turn,
  \<open>cardsPerPlayer\<close> times, while the deck lasts.
\<close>

definition dealOne :: "nat \<Rightarrow> card list list \<times> card list \<Rightarrow> card list list \<times> card list" where
  "dealOne j st =
     (case st of (hands, deck) \<Rightarrow>
        if deck \<noteq> [] then (hands[j := hands ! j @ [last deck]], butlast deck)
        else (hands, deck))"

definition dealCards :: "card list \<Rightarrow> nat \<Rightarrow> nat \<Rightarrow> card list list \<times> card list" where
  "dealCards deck numPlayers cardsPerPlayer =
     fold (\<lambda>i st. fold dealOne [0..<numPlayers] st) [0..<cardsPerPlayer]
       (replicate numPlayers [], deck)"

section \<open>Game session\<close>

text \<open>
  The player and game objects of \<^verbatim>\<open>server.mjs\<close>. The fields \<^verbatim>\<open>id\<close> are \<open>pid\<close> and
  \<open>gid\<close>, \<^verbatim>\<open>round\<close> is \<open>roundNo\<close>. \<^verbatim>\<open>game.winner\<close> is a reference to one of the
  player objects of \<^verbatim>\<open>game.players\<close>; it is modelled by that player's index.
  Hands, melds and the deck only ever receive cards; the discard pile receives
  whatever \<^verbatim>\<open>splice\<close> returns, so its slots may be \<^verbatim>\<open>undefined\<close>.

  The handlers mutate the session. A handler that returns is \<open>Inr\<close> of the session
  as it then stands; a handler that throws is \<open>Inl\<close> of the error and the session as
  the writes before the throw have left it.
\<close>

datatype error = TypeError | ReferenceError

record player =
  pid :: string
  name :: string
  playerNumber :: nat
  hand :: "card list"
  exposedMelds :: "card list list"
  secretMelds :: "card list list"
  score :: nat
  consecutiveWins :: nat
  isSapawed :: bool
  points :: nat
  turnsPlayed :: nat
  isBot :: bool

record game =
  gid :: string
  players :: "player list"
  deck :: "card list"
  discardPile :: "card option list"
  currentPlayerIndex :: nat
  hasDrawnThisTurn :: bool
  roundNo :: nat
  entryFee :: nat
  gameEnded :: bool
  selectedCardIndices :: "int list"
  gameStarted :: bool
  firstPlayerHasPlayed :: bool
  winner :: "nat option"

type_synonym outcome = "(error \<times> game) + game"

definition PLAYERS_REQUIRED :: nat where
  "PLAYERS_REQUIRED = 3"

text \<open>The objects built by the \<^verbatim>\<open>join-game\<close> handler.\<close>

definition newGame :: "string \<Rightarrow> game" where
  "newGame i =
     \<lparr>gid = i, players = [], deck = [], discardPile = [], currentPlayerIndex = 0,
      hasDrawnThisTurn = False, roundNo = 1, entryFee = 500, gameEnded = False,
      selectedCardIndices = [], gameStarted = False, firstPlayerHasPlayed = False,
      winner = None\<rparr>"

definition newPlayer :: "string \<Rightarrow> string \<Rightarrow> nat \<Rightarrow> player" where
  "newPlayer socketId playerName number =
     \<lparr>pid = socketId, name = playerName, playerNumber = number, hand = [],
      exposedMelds = [], secretMelds = [], score = 0, consecutiveWins = 0,
      isSapawed = False, points = 0, turnsPlayed = 0, isBot = False\<rparr>"

definition joinGame :: "game \<Rightarrow> string \<Rightarrow> string \<Rightarrow> game" where
  "joinGame g socketId playerName =
     (let g1 = g\<lparr>players := players g @ [newPlayer socketId playerName (length (players g) + 1)]\<rparr>
      in if length (players g1) = PLAYERS_REQUIRED \<and> \<not> gameStarted g1
         then g1\<lparr>gameStarted := True\<rparr> else g1)"

text \<open>
  The \<^verbatim>\<open>forEach\<close> of \<^verbatim>\<open>startGame\<close> and \<^verbatim>\<open>handleNextGame\<close>: every player takes the
  hand dealt to their index, and the player at index 0 one more card popped from
  the deck. The deck holds 16 cards at that point, so the pop returns a card.
  A session never has more players than \<open>PLAYERS_REQUIRED\<close>, the number of hands.
\<close>

definition dealtHand :: "card list list \<Rightarrow> card list \<Rightarrow> nat \<Rightarrow> card list" where
  "dealtHand hands remainingDeck index =
     (let h = (case nthNat hands index of None \<Rightarrow> [] | Some h \<Rightarrow> h)
      in if index = 0 then (case fst (pop remainingDeck) of None \<Rightarrow> h | Some c \<Rightarrow> h @ [c])
         else h)"

definition deckAfterDeal :: "player list \<Rightarrow> card list \<Rightarrow> card list" where
  "deckAfterDeal ps remainingDeck = (if ps = [] then remainingDeck else snd (pop remainingDeck))"

definition startGame :: "rng \<Rightarrow> game \<Rightarrow> game" where
  "startGame r g =
     (if length (players g) \<noteq> PLAYERS_REQUIRED then g
      else
        case dealCards (createDeck r) PLAYERS_REQUIRED 12 of (hands, remainingDeck) \<Rightarrow>
          g\<lparr>deck := deckAfterDeal (players g) remainingDeck,
            discardPile := [],
            hasDrawnThisTurn := True,
            selectedCardIndices := [],
            firstPlayerHasPlayed := False,
            players := map (\<lambda>(index, p). p\<lparr>hand := dealtHand hands remainingDeck index,
                                              exposedMelds := []\<rparr>)
                         (enumerate 0 (players g))\<rparr>)"

section \<open>Turn state machine\<close>

text \<open>
  \<^verbatim>\<open>canFormMeldWithCard\<close>. The two nested loops over \<^verbatim>\<open>sameSuitCards\<close> are
  \<open>pairLoopI\<close> and \<open>pairLoopJ\<close>. Reading \<^verbatim>\<open>card.rank\<close> of an \<^verbatim>\<open>undefined\<close> card raises
  a TypeError in the first \<^verbatim>\<open>filter\<close> callback, which runs when the hand is not empty.
\<close>

function pairLoopJ :: "card \<Rightarrow> card list \<Rightarrow> nat \<Rightarrow> nat \<Rightarrow> (nat \<times> nat) option" where
  "pairLoopJ crd s i j =
     (if j < length s then
        (if isValidMeld [Some crd, Some (s ! i), Some (s ! j)] then Some (i, j)
         else pairLoopJ crd s i (Suc j))
      else None)"
  by pat_completeness auto
termination
  by (relation "measure (\<lambda>(crd, s, i, j). length s - j)") auto

function pairLoopI :: "card \<Rightarrow> card list \<Rightarrow> nat \<Rightarrow> (nat \<times> nat) option" where
  "pairLoopI crd s i =
     (if i + 1 < length s then
        (case pairLoopJ crd s i (Suc i) of
           Some p \<Rightarrow> Some p
         | None \<Rightarrow> pairLoopI crd s (Suc i))
      else None)"
  by pat_completeness auto
termination
  by (relation "measure (\<lambda>(crd, s, i). length s - i)") auto

declare pairLoopJ.simps [simp del] pairLoopI.simps [simp del]

definition indexOfCard :: "card \<Rightarrow> card list \<Rightarrow> int" where
  "indexOfCard x xs = (case findIndex (\<lambda>c. c = x) xs of None \<Rightarrow> - 1 | Some i \<Rightarrow> int i)"

definition canFormMeldWithCard :: "card option \<Rightarrow> card list \<Rightarrow> error + (bool \<times> int list)" where
  "canFormMeldWithCard crd playerHand =
     (case crd of
        None \<Rightarrow> if playerHand = [] then Inr (False, []) else Inl TypeError
      | Some c \<Rightarrow>
          let sameRankCards = filter (\<lambda>h. rank h = rank c) playerHand in
          if length sameRankCards \<ge> 2 then
            Inr (True, map int (take 2 (filter (\<lambda>i. rank (playerHand ! i) = rank c)
                                          [0..<length playerHand])))
          else
            let sameSuitCards = filter (\<lambda>h. suit h = suit c) playerHand in
            (case pairLoopI c sameSuitCards 0 of
               Some (i, j) \<Rightarrow>
                 Inr (True, [indexOfCard (sameSuitCards ! i) playerHand,
                             indexOfCard (sameSuitCards ! j) playerHand])
             | None \<Rightarrow> Inr (False, [])))"

text \<open>\<^verbatim>\<open>game.players[game.currentPlayerIndex]\<close>\<close>

definition currentPlayer :: "game \<Rightarrow> player option" where
  "currentPlayer g = nthNat (players g) (currentPlayerIndex g)"

definition setCurrentPlayer :: "game \<Rightarrow> player \<Rightarrow> game" where
  "setCurrentPlayer g p = g\<lparr>players := (players g)[currentPlayerIndex g := p]\<rparr>"

text \<open>
  The import in line 5 of \<^verbatim>\<open>server.mjs\<close> names \<^verbatim>\<open>createDeck\<close>, \<^verbatim>\<open>dealCards\<close>,
  \<^verbatim>\<open>isValidMeld\<close>, \<^verbatim>\<open>calculateHandPoints\<close>, \<^verbatim>\<open>sortCards\<close> and \<^verbatim>\<open>shuffleDeck\<close>.
  \<^verbatim>\<open>canFormMeldWithCard\<close> is exported by \<^verbatim>\<open>card-utils.mjs\<close> but is not among them, and
  \<^verbatim>\<open>server.mjs\<close> declares no such name: the identifier is unbound in the module, and
  the call in \<^verbatim>\<open>handleDraw\<close> raises a ReferenceError before its arguments are
  evaluated and before any write. \<open>moduleScope\<close> is what the name is bound to in
  \<^verbatim>\<open>server.mjs\<close>.
\<close>

type_synonym binding = "(card option \<Rightarrow> card list \<Rightarrow> error + (bool \<times> int list)) option"

definition moduleScope :: binding where
  "moduleScope = None"

text \<open>
  The body of \<^verbatim>\<open>handleDraw\<close>, for a given binding of \<^verbatim>\<open>canFormMeldWithCard\<close>. A
  request for the discard pile that finds it empty falls through to the \<^verbatim>\<open>else if\<close>
  and draws from the deck. In the deck branch the deck is popped before the current
  player's hand is read.
\<close>

definition handleDrawWith :: "binding \<Rightarrow> game \<Rightarrow> bool \<Rightarrow> int list \<Rightarrow> outcome" where
  "handleDrawWith scope g fromDeck meldIndices =
     (if hasDrawnThisTurn g then Inr g
      else if \<not> fromDeck \<and> discardPile g \<noteq> [] then
        (case scope of
           None \<Rightarrow> Inl (ReferenceError, g)
         | Some canForm \<Rightarrow>
        (case currentPlayer g of
           None \<Rightarrow> Inl (TypeError, g)
         | Some p \<Rightarrow>
             let topCard = last (discardPile g) in
             (case canForm topCard (hand p) of
                Inl e \<Rightarrow> Inl (e, g)
              | Inr (canMeld, indices) \<Rightarrow>
                  if \<not> canMeld then Inr g
                  else
                    let pile = butlast (discardPile g) in
                    (case topCard of
                       None \<Rightarrow> Inr (g\<lparr>discardPile := pile\<rparr>)
                     | Some drawnCard \<Rightarrow>
                         let meldCards = map (nthJs (hand p)) meldIndices @ [Some drawnCard] in
                         if meldIndices \<noteq> [] \<and> isValidMeld meldCards then
                           Inr ((setCurrentPlayer g
                                   (p\<lparr>hand := removeIndices (hand p) meldIndices,
                                      exposedMelds := exposedMelds p @ [definedCards meldCards]\<rparr>))
                                \<lparr>discardPile := pile, selectedCardIndices := [],
                                 hasDrawnThisTurn := True\<rparr>)
                         else
                           Inr ((setCurrentPlayer g (p\<lparr>hand := hand p @ [drawnCard]\<rparr>))
                                \<lparr>discardPile := pile, hasDrawnThisTurn := True\<rparr>)))))
      else if deck g \<noteq> [] then
        (case currentPlayer g of
           None \<Rightarrow> Inl (TypeError, g\<lparr>deck := butlast (deck g)\<rparr>)
         | Some p \<Rightarrow>
             Inr ((setCurrentPlayer g (p\<lparr>hand := hand p @ [last (deck g)]\<rparr>))
                  \<lparr>deck := butlast (deck g), hasDrawnThisTurn := True\<rparr>))
      else Inr g)"

text \<open>\<^verbatim>\<open>handleDraw\<close> as it runs in \<^verbatim>\<open>server.mjs\<close>.\<close>

definition handleDraw :: "game \<Rightarrow> bool \<Rightarrow> int list \<Rightarrow> outcome" where
  "handleDraw g fromDeck meldIndices = handleDrawWith moduleScope g fromDeck meldIndices"

definition handleDiscard :: "game \<Rightarrow> int \<Rightarrow> outcome" where
  "handleDiscard g cardIndex =
     (if \<not> hasDrawnThisTurn g \<and> currentPlayerIndex g \<noteq> 0 then Inr g
      else
        (case currentPlayer g of
           None \<Rightarrow> Inl (TypeError, g)
         | Some p \<Rightarrow>
             let discardedCard = spliced1 cardIndex (hand p) in
             Inr ((setCurrentPlayer g
                     (p\<lparr>hand := splice1 cardIndex (hand p), turnsPlayed := turnsPlayed p + 1\<rparr>))
                  \<lparr>discardPile := discardPile g @ [discardedCard],
                   currentPlayerIndex := (currentPlayerIndex g + 1) mod length (players g),
                   hasDrawnThisTurn := False,
                   selectedCardIndices := []\<rparr>)))"

text \<open>
  \<^verbatim>\<open>handleTongits\<close>, called by \<^verbatim>\<open>handleMeld\<close> once the hand is empty: players are
  told apart by their \<^verbatim>\<open>id\<close>.
\<close>

definition handleTongits :: "game \<Rightarrow> outcome" where
  "handleTongits g =
     (case currentPlayer g of
        None \<Rightarrow> Inl (TypeError, g)
      | Some p \<Rightarrow>
          let cur = p\<lparr>score := 0, consecutiveWins := consecutiveWins p + 1\<rparr>;
              g1 = setCurrentPlayer g cur
          in Inr (g1\<lparr>players :=
                       map (\<lambda>q. if pid q \<noteq> pid cur
                                 then q\<lparr>score := calculateHandPoints (hand q) [],
                                        consecutiveWins := 0\<rparr>
                                 else q)
                         (players g1),
                     winner := Some (currentPlayerIndex g),
                     gameEnded := True\<rparr>))"

text \<open>
  \<^verbatim>\<open>handleMeld\<close>. With an empty \<^verbatim>\<open>cardIndices\<close> the \<^verbatim>\<open>map\<close> callback never reads the
  current player, and the empty meld is rejected.
\<close>

definition handleMeld :: "game \<Rightarrow> int list \<Rightarrow> outcome" where
  "handleMeld g cardIndices =
     (case currentPlayer g of
        None \<Rightarrow> if cardIndices = [] then Inr g else Inl (TypeError, g)
      | Some p \<Rightarrow>
          let meldedCards = map (nthJs (hand p)) cardIndices in
          if \<not> isValidMeld meldedCards then Inr g
          else
            let p1 = p\<lparr>exposedMelds := exposedMelds p @ [definedCards meldedCards],
                       hand := removeIndices (hand p) cardIndices\<rparr>;
                g1 = (setCurrentPlayer g p1)\<lparr>selectedCardIndices := []\<rparr>
            in if hand p1 = [] then handleTongits g1 else Inr g1)"

text \<open>
  \<^verbatim>\<open>handleSapaw\<close>. The target player and the current player may be the same object, so
  the three writes are applied to the player list one after the other. Spreading
  \<^verbatim>\<open>targetPlayer.exposedMelds[targetMeldIndex]\<close> raises a TypeError when the target
  player or the target meld does not exist.
\<close>

definition handleSapaw :: "game \<Rightarrow> int \<Rightarrow> int \<Rightarrow> int list \<Rightarrow> outcome" where
  "handleSapaw g targetPlayerIndex targetMeldIndex cardIndices =
     (if cardIndices \<noteq> [] \<and> currentPlayer g = None then Inl (TypeError, g)
      else
        (case nthJs (players g) targetPlayerIndex of
           None \<Rightarrow> Inl (TypeError, g)
         | Some targetPlayer \<Rightarrow>
             (case nthJs (exposedMelds targetPlayer) targetMeldIndex of
                None \<Rightarrow> Inl (TypeError, g)
              | Some meld \<Rightarrow>
                  let sapawCards = (case currentPlayer g of
                                      None \<Rightarrow> []
                                    | Some p \<Rightarrow> map (nthJs (hand p)) cardIndices);
                      targetMeld = map Some meld @ sapawCards
                  in if \<not> isValidMeld targetMeld then Inr g
                     else
                       let t = nat targetPlayerIndex;
                           ps1 = (players g)[t := targetPlayer
                                   \<lparr>exposedMelds := (exposedMelds targetPlayer)
                                      [nat targetMeldIndex := definedCards targetMeld]\<rparr>];
                           ps2 = (case nthNat ps1 (currentPlayerIndex g) of
                                    None \<Rightarrow> ps1
                                  | Some p \<Rightarrow>
                                      ps1[currentPlayerIndex g :=
                                            p\<lparr>hand := removeIndices (hand p) cardIndices\<rparr>]);
                           ps3 = ps2[t := (ps2 ! t)\<lparr>isSapawed := True\<rparr>]
                       in Inr (g\<lparr>players := ps3, selectedCardIndices := []\<rparr>))))"

text \<open>
  \<^verbatim>\<open>handleCallDraw\<close>. \<^verbatim>\<open>scores\<close> pairs each player's \<^verbatim>\<open>id\<close> with the points of their
  hand (no secret melds are passed); \<^verbatim>\<open>reduce\<close> without an initial value raises a
  TypeError on an empty array and otherwise starts from the first entry.
\<close>

definition lowestScore :: "(string \<times> nat) list \<Rightarrow> (string \<times> nat) option" where
  "lowestScore scores =
     (case scores of
        [] \<Rightarrow> None
      | s # rest \<Rightarrow> Some (foldl (\<lambda>m player. if snd player < snd m then player else m) s rest))"

definition handleCallDraw :: "game \<Rightarrow> outcome" where
  "handleCallDraw g =
     (let scores = map (\<lambda>p. (pid p, calculateHandPoints (hand p) [])) (players g) in
      case lowestScore scores of
        None \<Rightarrow> Inl (TypeError, g)
      | Some w \<Rightarrow>
          if \<not> list_all (\<lambda>p. List.find (\<lambda>s. fst s = pid p) scores \<noteq> None) (players g)
          then Inl (TypeError, g)
          else
            Inr (g\<lparr>players :=
                      map (\<lambda>p. p\<lparr>score := (case List.find (\<lambda>s. fst s = pid p) scores of
                                              None \<Rightarrow> score p | Some s \<Rightarrow> snd s),
                                  consecutiveWins := (if pid p = fst w
                                                      then consecutiveWins p + 1 else 0)\<rparr>)
                        (players g),
                    winner := findIndex (\<lambda>p. pid p = fst w) (players g),
                    gameEnded := True\<rparr>))"

text \<open>
  \<^verbatim>\<open>handleAutoSort\<close> orders the hand by \<^verbatim>\<open>suit.localeCompare\<close> and then
  \<^verbatim>\<open>rank.localeCompare\<close>. In the default collation the suit names are ordered
  clubs, diamonds, hearts, spades, and the rank strings 10, 2, ..., 9, A, J, K, Q.
\<close>

fun suitCollation :: "suit \<Rightarrow> nat" where
  "suitCollation Clubs = 0"
| "suitCollation Diamonds = 1"
| "suitCollation Hearts = 2"
| "suitCollation Spades = 3"

fun rankCollation :: "rank \<Rightarrow> nat" where
  "rankCollation R10 = 0"
| "rankCollation R2 = 1"
| "rankCollation R3 = 2"
| "rankCollation R4 = 3"
| "rankCollation R5 = 4"
| "rankCollation R6 = 5"
| "rankCollation R7 = 6"
| "rankCollation R8 = 7"
| "rankCollation R9 = 8"
| "rankCollation RA = 9"
| "rankCollation RJ = 10"
| "rankCollation RK = 11"
| "rankCollation RQ = 12"

definition handleAutoSort :: "game \<Rightarrow> nat \<Rightarrow> outcome" where
  "handleAutoSort g playerIndex =
     (case nthNat (players g) playerIndex of
        None \<Rightarrow> Inl (TypeError, g)
      | Some p \<Rightarrow>
          Inr (g\<lparr>players := (players g)[playerIndex :=
                   p\<lparr>hand := sort_key (\<lambda>c. 13 * suitCollation (suit c) + rankCollation (rank c))
                                (hand p)\<rparr>]\<rparr>))"

definition handleShuffle :: "rng \<Rightarrow> game \<Rightarrow> nat \<Rightarrow> outcome" where
  "handleShuffle r g playerIndex =
     (case nthNat (players g) playerIndex of
        None \<Rightarrow> Inl (TypeError, g)
      | Some p \<Rightarrow>
          Inr (g\<lparr>players := (players g)[playerIndex :=
                   p\<lparr>hand := shuffleLoop r (length (hand p) - 1) (hand p)\<rparr>]\<rparr>))"

definition handleNextGame :: "rng \<Rightarrow> game \<Rightarrow> game" where
  "handleNextGame r g =
     (case dealCards (createDeck r) PLAYERS_REQUIRED 12 of (hands, remainingDeck) \<Rightarrow>
        g\<lparr>roundNo := roundNo g + 1,
          deck := deckAfterDeal (players g) remainingDeck,
          discardPile := [],
          currentPlayerIndex := 0,
          hasDrawnThisTurn := True,
          gameEnded := False,
          selectedCardIndices := [],
          firstPlayerHasPlayed := False,
          players := map (\<lambda>(index, p). p\<lparr>hand := dealtHand hands remainingDeck index,
                                            exposedMelds := [], secretMelds := [],
                                            score := 0, isSapawed := False, points := 0,
                                            turnsPlayed := 0\<rparr>)
                       (enumerate 0 (players g))\<rparr>)"

definition handleResetGame :: "rng \<Rightarrow> game \<Rightarrow> game" where
  "handleResetGame r g =
     handleNextGame r
       (g\<lparr>roundNo := 1, players := map (\<lambda>p. p\<lparr>consecutiveWins := 0\<rparr>) (players g)\<rparr>)"

text \<open>
  The actions of the \<^verbatim>\<open>player-action\<close> message, by their \<^verbatim>\<open>type\<close>; \<open>Unknown\<close> is any
  other type, for which the \<^verbatim>\<open>switch\<close> has no case.
\<close>

datatype action =
    Draw bool "int list"
  | Discard int
  | Meld "int list"
  | Sapaw int int "int list"
  | CallDraw
  | UpdateSelectedIndices "int list"
  | AutoSort
  | Shuffle
  | NextGame
  | ResetGame
  | Unknown

fun isDraw :: "action \<Rightarrow> bool" where
  "isDraw (Draw fromDeck meldIndices) = True"
| "isDraw _ = False"

definition handlePlayerAction :: "rng \<Rightarrow> game \<Rightarrow> action \<Rightarrow> nat \<Rightarrow> outcome" where
  "handlePlayerAction r g act playerIndex =
     (if playerIndex = 0 \<and> \<not> firstPlayerHasPlayed g \<and> isDraw act then Inr g
      else
        (case act of
           Draw fromDeck meldIndices \<Rightarrow> handleDraw g fromDeck meldIndices
         | Discard cardIndex \<Rightarrow>
             (case handleDiscard g cardIndex of
                Inl e \<Rightarrow> Inl e
              | Inr g1 \<Rightarrow>
                  Inr (if playerIndex = 0 \<and> \<not> firstPlayerHasPlayed g1
                       then g1\<lparr>firstPlayerHasPlayed := True\<rparr> else g1))
         | Meld cardIndices \<Rightarrow> handleMeld g cardIndices
         | Sapaw targetPlayerIndex targetMeldIndex cardIndices \<Rightarrow>
             handleSapaw g targetPlayerIndex targetMeldIndex cardIndices
         | CallDraw \<Rightarrow> handleCallDraw g
         | UpdateSelectedIndices indices \<Rightarrow> Inr (g\<lparr>selectedCardIndices := indices\<rparr>)
         | AutoSort \<Rightarrow> handleAutoSort g playerIndex
         | Shuffle \<Rightarrow> handleShuffle r g playerIndex
         | NextGame \<Rightarrow> Inr (handleNextGame r g)
         | ResetGame \<Rightarrow> Inr (handleResetGame r g)
         | Unknown \<Rightarrow> Inr g))"

text \<open>
  The \<^verbatim>\<open>player-action\<close> handler of the socket \<open>socketId\<close>: nothing happens unless the
  socket's player is the current player.
\<close>

definition onPlayerAction :: "rng \<Rightarrow> game \<Rightarrow> string \<Rightarrow> action \<Rightarrow> outcome" where
  "onPlayerAction r g socketId act =
     (case findIndex (\<lambda>p. pid p = socketId) (players g) of
        None \<Rightarrow> Inr g
      | Some playerIndex \<Rightarrow>
          if playerIndex \<noteq> currentPlayerIndex g then Inr g
          else handlePlayerAction r g act playerIndex)"

text \<open>
  A run of the server on one session: the messages arrive one at a time, each with the
  socket that sent it and the random numbers drawn while it is handled. No handler
  catches an error, and \<open>run\<close> ends with the first one that throws. \<open>sessionOf\<close> is
  the session object an outcome leaves behind.
\<close>

fun run :: "game \<Rightarrow> (rng \<times> string \<times> action) list \<Rightarrow> outcome" where
  "run g [] = Inr g"
| "run g ((r, socketId, act) # es) =
     (case onPlayerAction r g socketId act of
        Inl e \<Rightarrow> Inl e
      | Inr g1 \<Rightarrow> run g1 es)"

definition sessionOf :: "outcome \<Rightarrow> game" where
  "sessionOf out = (case out of Inl (e, g) \<Rightarrow> g | Inr g \<Rightarrow> g)"

section \<open>The scoring engine as the specification describes it\<close>

text \<open>
  The specification's account of the scoring engine, written independently of the
  loops above: the candidate triples in increasing index order, the first matching
  one; otherwise the first three neighbours of the rank-sorted hand that form a run;
  the cards of the meld taken out of the hand; repeated until nothing is found; then
  the point values of what is left.
\<close>

text \<open>Ace 1, 2 to 10 at face value, J, Q and K ten.\<close>

fun pointValue :: "rank \<Rightarrow> nat" where
  "pointValue RA = 1"
| "pointValue R2 = 2"
| "pointValue R3 = 3"
| "pointValue R4 = 4"
| "pointValue R5 = 5"
| "pointValue R6 = 6"
| "pointValue R7 = 7"
| "pointValue R8 = 8"
| "pointValue R9 = 9"
| "pointValue R10 = 10"
| "pointValue RJ = 10"
| "pointValue RQ = 10"
| "pointValue RK = 10"

text \<open>
  All index triples \<open>i < j < k\<close> below \<open>n\<close> in increasing (lexicographic) order, and the
  first one whose three cards share a rank.
\<close>

definition indexTriples :: "nat \<Rightarrow> (nat \<times> nat \<times> nat) list" where
  "indexTriples n =
     concat (map (\<lambda>i. concat (map (\<lambda>j. map (\<lambda>k. (i, j, k)) [Suc j..<n]) [Suc i..<n])) [0..<n])"

definition firstSetTriple :: "card list \<Rightarrow> (nat \<times> nat \<times> nat) option" where
  "firstSetTriple hnd =
     List.find (\<lambda>(i, j, k). rank (hnd ! i) = rank (hnd ! j) \<and> rank (hnd ! j) = rank (hnd ! k))
       (indexTriples (length hnd))"

text \<open>
  The first three neighbours, from the left, that have one suit and consecutive ranks.
\<close>

fun firstRun :: "card list \<Rightarrow> card list option" where
  "firstRun (a # b # c # rest) =
     (if suit a = suit b \<and> suit b = suit c \<and>
         rankToNumber (rank b) = rankToNumber (rank a) + 1 \<and>
         rankToNumber (rank c) = rankToNumber (rank b) + 1
      then Some [a, b, c] else firstRun (b # c # rest))"
| "firstRun _ = None"

text \<open>
  One extraction: the meld found and the hand without its cards (the three positions
  of a set; one occurrence of each card of a run).
\<close>

definition extractMeld_spec :: "card list \<Rightarrow> (card list \<times> card list) option" where
  "extractMeld_spec hnd =
     (case firstSetTriple hnd of
        Some (i, j, k) \<Rightarrow> Some ([hnd ! i, hnd ! j, hnd ! k], nths hnd (- {i, j, k}))
      | None \<Rightarrow>
          (case firstRun (sortByRank hnd) of
             Some m \<Rightarrow> Some (m, fold remove1 m hnd)
           | None \<Rightarrow> None))"

text \<open>The loops of \<open>findAndRemoveMeld\<close> compute the first triple of \<open>indexTriples\<close>.\<close>

lemma find_append_case:
  "List.find P (xs @ ys) = (case List.find P xs of None \<Rightarrow> List.find P ys | Some x \<Rightarrow> Some x)"
  by (induction xs) auto

lemma setLoopK_find:
  "i < length cards \<Longrightarrow> j < length cards \<Longrightarrow>
   setLoopK cards i j k =
   List.find (\<lambda>(i, j, k). rank (cards ! i) = rank (cards ! j) \<and> rank (cards ! j) = rank (cards ! k))
     (map (\<lambda>k. (i, j, k)) [k..<length cards])"
proof (induction cards i j k rule: setLoopK.induct)
  case (1 cards i j k)
  show ?case
  proof (cases "k < length cards")
    case False
    then show ?thesis by (subst setLoopK.simps) simp
  next
    case k: True
    show ?thesis
    proof (cases "sameRank3 cards i j k")
      case True
      with k show ?thesis
        by (subst setLoopK.simps) (simp add: upt_conv_Cons sameRank3_def)
    next
      case False
      from "1.IH"[OF k False "1.prems"] k False show ?thesis
        by (subst setLoopK.simps) (auto simp add: upt_conv_Cons[of k] sameRank3_def)
    qed
  qed
qed

lemma setLoopJ_find:
  "i < length cards \<Longrightarrow>
   setLoopJ cards i j =
   List.find (\<lambda>(i, j, k). rank (cards ! i) = rank (cards ! j) \<and> rank (cards ! j) = rank (cards ! k))
     (concat (map (\<lambda>j. map (\<lambda>k. (i, j, k)) [Suc j..<length cards]) [j..<length cards]))"
proof (induction cards i j rule: setLoopJ.induct)
  case (1 cards i j)
  show ?case
  proof (cases "j + 1 < length cards")
    case False
    then have "j \<ge> length cards \<or> Suc j = length cards" by arith
    then show ?thesis
    proof
      assume "j \<ge> length cards"
      then show ?thesis by (subst setLoopJ.simps) simp
    next
      assume "Suc j = length cards"
      then have "[j..<length cards] = [j]" by (simp add: upt_conv_Cons)
      with False \<open>Suc j = length cards\<close> show ?thesis by (subst setLoopJ.simps) simp
    qed
  next
    case j: True
    then have jl: "j < length cards" by simp
    have split: "[j..<length cards] = j # [Suc j..<length cards]"
      using jl by (simp add: upt_conv_Cons)
    show ?thesis
    proof (cases "setLoopK cards i j (Suc j)")
      case None
      from "1.IH"[OF j None "1.prems"] None j show ?thesis
        by (subst setLoopJ.simps)
           (simp add: split find_append_case setLoopK_find[OF "1.prems" jl, symmetric])
    next
      case (Some t)
      with j show ?thesis
        by (subst setLoopJ.simps)
           (simp add: split find_append_case setLoopK_find[OF "1.prems" jl, symmetric])
    qed
  qed
qed

lemma setLoopI_find:
  "setLoopI cards i =
   List.find (\<lambda>(i, j, k). rank (cards ! i) = rank (cards ! j) \<and> rank (cards ! j) = rank (cards ! k))
     (concat (map (\<lambda>i. concat (map (\<lambda>j. map (\<lambda>k. (i, j, k)) [Suc j..<length cards])
                                   [Suc i..<length cards])) [i..<length cards]))"
proof (induction cards i rule: setLoopI.induct)
  case (1 cards i)
  let ?P = "\<lambda>(i, j, k). rank (cards ! i) = rank (cards ! j) \<and> rank (cards ! j) = rank (cards ! k)"
  let ?row = "\<lambda>i. concat (map (\<lambda>j. map (\<lambda>k. (i, j, k)) [Suc j..<length cards]) [Suc i..<length cards])"
  show ?case
  proof (cases "i + 2 < length cards")
    case False
    have empty: "concat (map ?row [i..<length cards]) = []"
    proof -
      have "\<forall>i' \<in> set [i..<length cards]. ?row i' = []"
      proof
        fix i' assume "i' \<in> set [i..<length cards]"
        then have "length cards \<le> i' + 2" using False by simp
        then have "\<forall>j \<in> set [Suc i'..<length cards]. [Suc j..<length cards] = []" by simp
        then show "?row i' = []" by simp
      qed
      then show ?thesis by simp
    qed
    from False show ?thesis by (subst setLoopI.simps) (simp only: empty if_False find.simps)
  next
    case i: True
    then have il: "i < length cards" by simp
    have split: "[i..<length cards] = i # [Suc i..<length cards]"
      using il by (simp add: upt_conv_Cons)
    show ?thesis
    proof (cases "setLoopJ cards i (Suc i)")
      case None
      from "1.IH"[OF i None] None i show ?thesis
        by (subst setLoopI.simps)
           (simp add: split find_append_case setLoopJ_find[OF il, symmetric])
    next
      case (Some t)
      with i show ?thesis
        by (subst setLoopI.simps)
           (simp add: split find_append_case setLoopJ_find[OF il, symmetric])
    qed
  qed
qed

lemma setLoopI_firstSetTriple: "setLoopI cards 0 = firstSetTriple cards"
  by (simp add: setLoopI_find firstSetTriple_def indexTriples_def)

lemma drop3:
  assumes "i + 2 < length s"
  shows "drop i s = s ! i # s ! (i + 1) # s ! (i + 2) # drop (i + 3) s"
proof -
  have "drop i s = s ! i # drop (Suc i) s" using assms by (simp add: Cons_nth_drop_Suc)
  also have "drop (Suc i) s = s ! (i + 1) # drop (Suc (Suc i)) s"
    using assms by (simp add: Cons_nth_drop_Suc)
  also have "drop (Suc (Suc i)) s = s ! (i + 2) # drop (i + 3) s"
    using assms Cons_nth_drop_Suc[of "i + 2" s] by (simp add: numeral_3_eq_3)
  finally show ?thesis .
qed

lemma firstRun_short: "length xs < 3 \<Longrightarrow> firstRun xs = None"
  by (cases xs rule: firstRun.cases) auto

lemma runLoop_firstRun:
  "firstRun (drop i s) = map_option (\<lambda>a. [s ! a, s ! (a + 1), s ! (a + 2)]) (runLoop s i)"
proof (induction s i rule: runLoop.induct)
  case (1 s i)
  show ?case
  proof (cases "i + 2 < length s")
    case False
    then have "firstRun (drop i s) = None" by (intro firstRun_short) simp
    with False show ?thesis by (subst runLoop.simps) simp
  next
    case i: True
    note d = drop3[OF i]
    show ?thesis
    proof (cases "isRunAt s i")
      case True
      then have "firstRun (drop i s) = Some [s ! i, s ! (i + 1), s ! (i + 2)]"
        by (subst d) (auto simp: isRunAt_def)
      with i True show ?thesis by (subst runLoop.simps) simp
    next
      case False
      have "drop (Suc i) s = s ! (i + 1) # s ! (i + 2) # drop (i + 3) s"
        using d by (metis drop_Suc list.sel(3) tl_drop)
      with False have "firstRun (drop i s) = firstRun (drop (Suc i) s)"
        by (subst d) (auto simp: isRunAt_def)
      with "1.IH"[OF i False] i False show ?thesis by (subst runLoop.simps) simp
    qed
  qed
qed

lemma removeAt_nths: "removeAt k xs = nths xs (- {k})"
proof (cases "k < length xs")
  case False
  then show ?thesis by (simp add: removeAt_def nths_all)
next
  case True
  have "nths xs (- {k}) = nths (take k xs @ xs ! k # drop (Suc k) xs) (- {k})"
    using id_take_nth_drop[OF True] by simp
  also have "\<dots> = take k xs @ drop (Suc k) xs"
    using True by (simp add: nths_append nths_Cons nths_all min_def)
  finally show ?thesis by (simp add: removeAt_def)
qed


lemma removeAt_append_Cons: "length ys = k \<Longrightarrow> removeAt k (ys @ x # zs) = ys @ zs"
  by (simp add: removeAt_def)

lemma removeAt3_nths:
  assumes "i < j" "j < k" "k < length xs"
  shows "removeAt i (removeAt j (removeAt k xs)) = nths xs (- {i, j, k})"
proof -
  define as where "as = take i xs"
  define bs where "bs = take (j - Suc i) (drop (Suc i) xs)"
  define cs where "cs = take (k - Suc j) (drop (Suc j) xs)"
  define ds where "ds = drop (Suc k) xs"
  have xs: "xs = as @ xs ! i # bs @ xs ! j # cs @ xs ! k # ds"
  proof -
    have "xs = take i xs @ xs ! i # drop (Suc i) xs" using assms by (intro id_take_nth_drop) simp
    moreover have "drop (Suc i) xs = bs @ drop j xs"
      using assms unfolding bs_def
      by (metis Suc_leI add_diff_inverse_nat append_take_drop_id drop_drop not_less add.commute)
    moreover have "drop j xs = xs ! j # drop (Suc j) xs"
      using assms by (simp add: Cons_nth_drop_Suc)
    moreover have "drop (Suc j) xs = cs @ drop k xs"
      using assms unfolding cs_def
      by (metis Suc_leI add_diff_inverse_nat append_take_drop_id drop_drop not_less add.commute)
    moreover have "drop k xs = xs ! k # ds"
      using assms by (simp add: Cons_nth_drop_Suc ds_def)
    ultimately show ?thesis by (simp add: as_def)
  qed
  have la: "length as = i" using assms by (simp add: as_def)
  have lb: "length bs = j - Suc i" using assms by (simp add: bs_def)
  have lc: "length cs = k - Suc j" using assms by (simp add: cs_def)
  have r1: "removeAt k xs = as @ xs ! i # bs @ xs ! j # cs @ ds"
  proof -
    have "removeAt k ((as @ xs ! i # bs @ xs ! j # cs) @ xs ! k # ds) = (as @ xs ! i # bs @ xs ! j # cs) @ ds"
      using assms by (intro removeAt_append_Cons) (simp add: la lb lc)
    with xs show ?thesis by simp
  qed
  have r2: "removeAt j (as @ xs ! i # bs @ xs ! j # cs @ ds) = as @ xs ! i # bs @ cs @ ds"
  proof -
    have "removeAt j ((as @ xs ! i # bs) @ xs ! j # (cs @ ds)) = (as @ xs ! i # bs) @ (cs @ ds)"
      using assms by (intro removeAt_append_Cons) (simp add: la lb)
    then show ?thesis by simp
  qed
  have r3: "removeAt i (as @ xs ! i # bs @ cs @ ds) = as @ bs @ cs @ ds"
    using la by (intro removeAt_append_Cons)
  have "nths xs (- {i, j, k}) = nths (as @ xs ! i # bs @ xs ! j # cs @ xs ! k # ds) (- {i, j, k})"
    using xs by simp
  also have "\<dots> = nths as (- {i, j, k}) @
        nths bs {ja. Suc (ja + i) \<noteq> j \<and> Suc (ja + i) \<noteq> k} @
        nths cs {ja. Suc (ja + j) \<noteq> k} @ nths ds UNIV"
    using assms by (simp add: nths_append nths_Cons la lb lc)
  also have "nths as (- {i, j, k}) = as"
    using assms by (intro nths_all) (simp add: la)
  also have "nths bs {ja. Suc (ja + i) \<noteq> j \<and> Suc (ja + i) \<noteq> k} = bs"
    using assms by (intro nths_all) (auto simp add: lb)
  also have "nths cs {ja. Suc (ja + j) \<noteq> k} = cs"
    using assms by (intro nths_all) (auto simp add: lc)
  also have "nths ds UNIV = ds" by (intro nths_all) simp
  finally show ?thesis by (simp add: r1 r2 r3)
qed

lemma runLoop_isRunAt: "runLoop s i = Some a \<Longrightarrow> isRunAt s a"
proof (induction s i rule: runLoop.induct)
  case (1 s i)
  from "1.prems" have i: "i + 2 < length s"
    by (subst (asm) runLoop.simps) (simp split: if_splits)
  show ?case
  proof (cases "isRunAt s i")
    case True
    with "1.prems" i show ?thesis by (subst (asm) runLoop.simps) simp
  next
    case False
    with "1.prems" i have "runLoop s (Suc i) = Some a"
      by (subst (asm) runLoop.simps) simp
    from "1.IH"[OF i False this] show ?thesis .
  qed
qed

lemma spliceIndexOf3:
  assumes "a \<in> set cards" "b \<in> set cards" "c \<in> set cards" "a \<noteq> b" "b \<noteq> c" "a \<noteq> c"
  shows "spliceIndexOf a (spliceIndexOf b (spliceIndexOf c cards)) = fold remove1 [a, b, c] cards"
proof -
  have 1: "spliceIndexOf c cards = remove1 c cards" using assms by (simp add: spliceIndexOf_def)
  have 2: "spliceIndexOf b (remove1 c cards) = remove1 b (remove1 c cards)"
    using assms by (simp add: spliceIndexOf_def)
  have 3: "spliceIndexOf a (remove1 b (remove1 c cards)) = remove1 a (remove1 b (remove1 c cards))"
    using assms by (simp add: spliceIndexOf_def)
  have "remove1 a (remove1 b (remove1 c cards)) = remove1 c (remove1 b (remove1 a cards))"
    by (metis remove1_commute)
  then show ?thesis by (simp add: 1 2 3)
qed

lemma findAndRemoveMeld_spec: "findAndRemoveMeld hnd = extractMeld_spec hnd"
proof (cases "setLoopI hnd 0")
  case (Some t)
  obtain i j k where t: "t = (i, j, k)" by (cases t) auto
  from setLoopI_range[of hnd 0 i j k] Some t have "i < j" "j < k" "k < length hnd" by auto
  from removeAt3_nths[OF this] Some t show ?thesis
    by (simp add: findAndRemoveMeld_def extractMeld_spec_def setLoopI_firstSetTriple[symmetric])
next
  case None
  let ?s = "sortByRank hnd"
  have fr: "firstRun ?s = map_option (\<lambda>a. [?s ! a, ?s ! (a + 1), ?s ! (a + 2)]) (runLoop ?s 0)"
    using runLoop_firstRun[of 0 ?s] by simp
  show ?thesis
  proof (cases "runLoop ?s 0")
    case rn: None
    with None fr show ?thesis
      by (simp add: findAndRemoveMeld_def extractMeld_spec_def setLoopI_firstSetTriple[symmetric])
  next
    case (Some i)
    from runLoop_range[OF Some] have len: "i + 2 < length ?s" by simp
    have mem: "\<And>n. n < length ?s \<Longrightarrow> ?s ! n \<in> set hnd"
    proof -
      fix n assume "n < length ?s"
      then have "?s ! n \<in> set ?s" by (rule nth_mem)
      then show "?s ! n \<in> set hnd" by (simp add: sortByRank_def)
    qed
    from runLoop_isRunAt[OF Some]
    have ne: "?s ! i \<noteq> ?s ! (i + 1)" "?s ! (i + 1) \<noteq> ?s ! (i + 2)" "?s ! i \<noteq> ?s ! (i + 2)"
      by (auto simp: isRunAt_def)
    have "spliceIndexOf (?s ! i) (spliceIndexOf (?s ! (i + 1)) (spliceIndexOf (?s ! (i + 2)) hnd))
          = fold remove1 [?s ! i, ?s ! (i + 1), ?s ! (i + 2)] hnd"
      using len ne by (intro spliceIndexOf3 mem) simp_all
    with None Some fr show ?thesis
      by (simp add: findAndRemoveMeld_def extractMeld_spec_def
            setLoopI_firstSetTriple[symmetric] Let_def)
  qed
qed

text \<open>Extraction repeated until no meld is found, and the points of what is left.\<close>

function residual_spec :: "card list \<Rightarrow> card list" where
  "residual_spec hnd =
     (case extractMeld_spec hnd of
        None \<Rightarrow> hnd
      | Some (m, rest) \<Rightarrow> residual_spec rest)"
  by pat_completeness auto
termination
proof (relation "measure length")
  show "wf (measure length)" by simp
next
  fix hnd :: "card list" and x2 x y
  assume "extractMeld_spec hnd = Some x2" "(x, y) = x2"
  then have "findAndRemoveMeld hnd = Some (x, y)" by (simp add: findAndRemoveMeld_spec)
  from findAndRemoveMeld_length[OF this] show "(y, hnd) \<in> measure length" by simp
qed

declare residual_spec.simps [simp del]

definition handPoints_spec :: "card list \<Rightarrow> nat" where
  "handPoints_spec hnd = sum_list (map (\<lambda>c. pointValue (rank c)) (residual_spec hnd))"

lemma chpLoop_residual: "fst (chpLoop allCards allMelds) = residual_spec allCards"
proof (induction allCards allMelds rule: chpLoop.induct)
  case (1 allCards allMelds)
  show ?case
  proof (cases "findAndRemoveMeld allCards")
    case None
    then show ?thesis
      by (subst chpLoop.simps, subst residual_spec.simps) (simp add: findAndRemoveMeld_spec[symmetric])
  next
    case (Some p)
    obtain m rest where p: "p = (m, rest)" by (cases p) auto
    from "1.IH"[OF Some p[symmetric]] Some p show ?thesis
      by (subst chpLoop.simps, subst residual_spec.simps) (simp add: findAndRemoveMeld_spec[symmetric])
  qed
qed

lemma chpLoop_melds_irrelevant: "fst (chpLoop allCards m1) = fst (chpLoop allCards m2)"
proof (induction allCards m1 arbitrary: m2 rule: chpLoop.induct)
  case (1 allCards allMelds)
  show ?case
  proof (cases "findAndRemoveMeld allCards")
    case None
    then show ?thesis by (subst chpLoop.simps, subst (2) chpLoop.simps) simp
  next
    case (Some p)
    obtain m rest where p: "p = (m, rest)" by (cases p) auto
    from "1.IH"[OF Some p[symmetric], of "m2 @ [m]"] Some p show ?thesis
      by (subst chpLoop.simps, subst (2) chpLoop.simps) simp
  qed
qed

lemma calculateCardPoints_pointValue: "calculateCardPoints c = pointValue (rank c)"
  by (cases "rank c") (auto simp: calculateCardPoints_def)

lemma foldl_points: "foldl (\<lambda>total card. total + calculateCardPoints card) n cs
   = n + sum_list (map (\<lambda>c. pointValue (rank c)) cs)"
  by (induction cs arbitrary: n) (auto simp: calculateCardPoints_pointValue)

lemma calculateHandPoints_spec: "calculateHandPoints hnd sm = handPoints_spec hnd"
proof -
  obtain cs ms where r: "chpLoop hnd sm = (cs, ms)" by (cases "chpLoop hnd sm")
  with chpLoop_residual[of hnd sm] have "cs = residual_spec hnd" by simp
  with r show ?thesis by (simp add: calculateHandPoints_def handPoints_spec_def foldl_points)
qed



section \<open>The meld validator as the specification describes it\<close>

text \<open>
  A set is three or four cards of one rank. A run is at least three cards of one suit
  whose rank numbers, once sorted, are the numbers from the lowest on without a gap.
\<close>

definition isSet_spec :: "card list \<Rightarrow> bool" where
  "isSet_spec cs =
     ((length cs = 3 \<or> length cs = 4) \<and> (\<forall>a \<in> set cs. \<forall>b \<in> set cs. rank a = rank b))"

definition isRun_spec :: "card list \<Rightarrow> bool" where
  "isRun_spec cs =
     (3 \<le> length cs \<and> (\<forall>a \<in> set cs. \<forall>b \<in> set cs. suit a = suit b) \<and>
      (case sort (map (\<lambda>c. rankToNumber (rank c)) cs) of
         [] \<Rightarrow> False
       | lo # rs \<Rightarrow> lo # rs = [lo ..< lo + length cs]))"

lemma definedCards_map_Some [simp]: "definedCards (map Some cs) = cs"
  by (induction cs) (auto simp: definedCards_def)

lemma allSameRank:
  "cs \<noteq> [] \<Longrightarrow>
   list_all (sameRankAsFirst (map Some cs)) (map Some cs) = (\<forall>a \<in> set cs. \<forall>b \<in> set cs. rank a = rank b)"
  by (cases cs) (auto simp: list_all_iff sameRankAsFirst_def firstRank_def)

lemma kinds_spec: "(isThreeOfAKind (map Some cs) \<or> isFourOfAKind (map Some cs)) = isSet_spec cs"
proof (cases "cs = []")
  case True
  then show ?thesis by (simp add: isThreeOfAKind_def isFourOfAKind_def isSet_spec_def)
next
  case False
  from allSameRank[OF this] show ?thesis
    by (auto simp: isThreeOfAKind_def isFourOfAKind_def isSet_spec_def)
qed

lemma allSameSuit:
  "(\<forall>c \<in> set s. Some (suit c) = firstSuit s) = (\<forall>a \<in> set s. \<forall>b \<in> set s. suit a = suit b)"
  by (cases s) (auto simp: firstSuit_def)

lemma upt_step: "[lo ..< lo + Suc n] = lo # [Suc lo ..< Suc lo + n]"
  by (simp add: upt_conv_Cons del: upt_Suc)

lemma cons_upt: "(x # xs = [lo ..< lo + Suc n]) = (x = lo \<and> xs = [Suc lo ..< Suc lo + n])"
  by (subst upt_step) auto

lemma consecutive_upt:
  "consecutive s =
     (case map (\<lambda>c. rankToNumber (rank c)) s of
        [] \<Rightarrow> True
      | lo # rs \<Rightarrow> lo # rs = [lo ..< lo + length s])"
proof (induction s rule: consecutive.induct)
  case (1 a b cs)
  let ?ra = "rankToNumber (rank a)" and ?rb = "rankToNumber (rank b)"
  let ?rs = "map (\<lambda>c. rankToNumber (rank c)) cs"
  have "consecutive (b # cs) = (?rb # ?rs = [?rb ..< ?rb + Suc (length cs)])"
    using 1 by simp
  then have IH: "consecutive (b # cs) = (?rs = [Suc ?rb ..< Suc ?rb + length cs])"
    by (simp only: cons_upt simp_thms)
  have "(?ra # ?rb # ?rs = [?ra ..< ?ra + Suc (Suc (length cs))])
        = (?rb = Suc ?ra \<and> ?rs = [Suc (Suc ?ra) ..< Suc (Suc ?ra) + length cs])"
    by (simp only: cons_upt simp_thms)
  moreover have "(int ?rb - int ?ra = 1) = (?rb = Suc ?ra)" by arith
  ultimately have "consecutive (a # b # cs)
        = (?ra # ?rb # ?rs = [?ra ..< ?ra + Suc (Suc (length cs))])"
    using IH by (auto simp del: upt_Suc)
  then show ?case by (simp del: upt_Suc)
qed (simp_all add: upt_conv_Cons del: upt_Suc)

lemma map_sortByRank:
  "map (\<lambda>c. rankToNumber (rank c)) (sortByRank cs) = sort (map (\<lambda>c. rankToNumber (rank c)) cs)"
  unfolding sortByRank_def
  by (rule properties_for_sort[symmetric]) (simp_all add: sorted_sort_key)

lemma isStraightFlush_spec: "isStraightFlush (map Some cs) = isRun_spec cs"
proof (cases "length cs < 3")
  case True
  then show ?thesis by (simp add: isStraightFlush_def isRun_spec_def)
next
  case False
  have set: "set (sortByRank cs) = set cs" by (simp add: sortByRank_def)
  have len: "length (sortByRank cs) = length cs" by (simp add: sortByRank_def)
  have ne: "sort (map (\<lambda>c. rankToNumber (rank c)) cs) \<noteq> []"
    using False by (metis length_sort length_map list.size(3) not_less0 not_less_eq numeral_3_eq_3 linorder_not_less)
  from False ne show ?thesis
    by (simp add: isStraightFlush_def isRun_spec_def Let_def list_all_iff allSameSuit set
          consecutive_upt[of "sortByRank cs"] map_sortByRank len split: list.splits)
qed

lemma isValidMeld_spec: "isValidMeld (map Some cs) = (isSet_spec cs \<or> isRun_spec cs)"
  using kinds_spec[of cs] isStraightFlush_spec[of cs] by (auto simp add: isValidMeld_def)

lemma isValidMeld_short: "length cards < 3 \<Longrightarrow> \<not> isValidMeld cards"
  by (simp add: isValidMeld_def isThreeOfAKind_def isFourOfAKind_def isStraightFlush_def)

lemma isValidMeld_undefined: "None \<in> set cards \<Longrightarrow> \<not> isValidMeld cards"
  by (auto simp add: isValidMeld_def isThreeOfAKind_def isFourOfAKind_def isStraightFlush_def
      list_all_iff sameRankAsFirst_def intro!: bexI[of _ None])

lemma chpLoop_melds_prefix: "snd (chpLoop allCards (a @ b)) = a @ snd (chpLoop allCards b)"
proof (induction allCards b arbitrary: a rule: chpLoop.induct)
  case (1 allCards allMelds)
  show ?case
  proof (cases "findAndRemoveMeld allCards")
    case None
    then show ?thesis by (subst chpLoop.simps, subst (2) chpLoop.simps) simp
  next
    case (Some p)
    obtain m rest where p: "p = (m, rest)" by (cases p) auto
    from "1.IH"[OF Some p[symmetric], of a] Some p show ?thesis
      by (subst chpLoop.simps, subst (2) chpLoop.simps) simp
  qed
qed

section \<open>Claims about the meld validator and the scoring engine\<close>

text \<open>
  C3. \<open>isValidMeld\<close> holds of a list of cards exactly when the cards are a set (three
  or four cards of one rank, suits irrelevant) or a run (at least three cards of one
  suit whose ranks, in the order A, 2, ..., 10, J, Q, K with the ace low and no
  wraparound, are consecutive after sorting). Fewer than three cards never validate.
  The three 9s, the four 9s and 3-4-5 of clubs are valid; 3-5-7 of clubs and 9-9-8 in
  three suits are not.
\<close>

theorem isValidMeld_set_or_run:
  "isValidMeld (map Some cs) = (isSet_spec cs \<or> isRun_spec cs) \<and>
   (length cs < 3 \<longrightarrow> \<not> isValidMeld (map Some cs)) \<and>
   isValidMeld (map Some [createCard Spades R9, createCard Hearts R9, createCard Diamonds R9]) \<and>
   isValidMeld (map Some [createCard Spades R9, createCard Hearts R9, createCard Diamonds R9,
                          createCard Clubs R9]) \<and>
   isValidMeld (map Some [createCard Clubs R3, createCard Clubs R4, createCard Clubs R5]) \<and>
   \<not> isValidMeld (map Some [createCard Clubs R3, createCard Clubs R5, createCard Clubs R7]) \<and>
   \<not> isValidMeld (map Some [createCard Spades R9, createCard Hearts R9, createCard Diamonds R8])"
proof -
  have "isValidMeld (map Some [createCard Spades R9, createCard Hearts R9, createCard Diamonds R9])"
    by code_simp
  moreover have "isValidMeld (map Some [createCard Spades R9, createCard Hearts R9,
      createCard Diamonds R9, createCard Clubs R9])"
    by code_simp
  moreover have "isValidMeld (map Some [createCard Clubs R3, createCard Clubs R4, createCard Clubs R5])"
    by code_simp
  moreover have "\<not> isValidMeld (map Some [createCard Clubs R3, createCard Clubs R5, createCard Clubs R7])"
    by code_simp
  moreover have "\<not> isValidMeld (map Some [createCard Spades R9, createCard Hearts R9,
      createCard Diamonds R8])"
    by code_simp
  moreover have "length cs < 3 \<longrightarrow> \<not> isValidMeld (map Some cs)"
    using isValidMeld_short[of "map Some cs"] by simp
  ultimately show ?thesis using isValidMeld_spec[of cs] by blast
qed

theorem isValidMeld_set_or_run_witness:
  "isRun_spec [createCard Clubs R5, createCard Clubs R3, createCard Clubs R4] \<and>
   isValidMeld (map Some [createCard Clubs R5, createCard Clubs R3, createCard Clubs R4]) \<and>
   length [createCard Spades RQ, createCard Spades RK] < 3 \<and>
   \<not> isValidMeld (map Some [createCard Spades RQ, createCard Spades RK])"
proof -
  have r: "isRun_spec [createCard Clubs R5, createCard Clubs R3, createCard Clubs R4]"
    by code_simp
  have v: "isValidMeld (map Some [createCard Clubs R5, createCard Clubs R3, createCard Clubs R4])"
    using r isValidMeld_set_or_run[of "[createCard Clubs R5, createCard Clubs R3, createCard Clubs R4]"]
    by blast
  have "length [createCard Spades RQ, createCard Spades RK] < 3 \<longrightarrow>
        \<not> isValidMeld (map Some [createCard Spades RQ, createCard Spades RK])"
    using isValidMeld_set_or_run[of "[createCard Spades RQ, createCard Spades RK]"] by blast
  then have s: "\<not> isValidMeld (map Some [createCard Spades RQ, createCard Spades RK])"
    by simp
  have l: "length [createCard Spades RQ, createCard Spades RK] < 3" by simp
  from r v l s show ?thesis by blast
qed

text \<open>
  C4. For every hand, \<open>calculateHandPoints\<close> repeatedly extracts a meld, first the
  three of a kind found by scanning the index triples in increasing order, else the
  first three-card same-suit run of the rank-sorted hand, removes its cards, and when
  nothing more can be extracted returns the sum of the remaining cards' values (ace 1,
  2 to 10 face value, J, Q, K ten). The hand A, 2, 3 of spades with the king of
  hearts scores 10.
\<close>

theorem calculateHandPoints_greedy_extraction:
  "findAndRemoveMeld h = extractMeld_spec h \<and>
   calculateHandPoints h sm = handPoints_spec h \<and>
   calculateHandPoints
     [createCard Spades RA, createCard Spades R2, createCard Spades R3, createCard Hearts RK] [] = 10"
proof -
  have "calculateHandPoints
     [createCard Spades RA, createCard Spades R2, createCard Spades R3, createCard Hearts RK] [] = 10"
    by code_simp
  then show ?thesis
    using findAndRemoveMeld_spec[of h] calculateHandPoints_spec[of h sm] by simp
qed

theorem calculateHandPoints_greedy_extraction_witness:
  "extractMeld_spec
     [createCard Hearts RK, createCard Spades R3, createCard Spades RA, createCard Spades R2] =
     Some ([createCard Spades RA, createCard Spades R2, createCard Spades R3], [createCard Hearts RK]) \<and>
   handPoints_spec
     [createCard Hearts RK, createCard Spades R3, createCard Spades RA, createCard Spades R2] = 10"
proof -
  have a: "findAndRemoveMeld
     [createCard Hearts RK, createCard Spades R3, createCard Spades RA, createCard Spades R2] =
     Some ([createCard Spades RA, createCard Spades R2, createCard Spades R3], [createCard Hearts RK])"
    by code_simp
  have b: "calculateHandPoints
     [createCard Hearts RK, createCard Spades R3, createCard Spades RA, createCard Spades R2] [] = 10"
    by code_simp
  show ?thesis
    using a b calculateHandPoints_greedy_extraction[of
        "[createCard Hearts RK, createCard Spades R3, createCard Spades RA, createCard Spades R2]" "[]"]
    by simp
qed

text \<open>
  C10. The result of \<open>calculateHandPoints\<close> does not depend on its second argument:
  any two lists of secret melds give the same total as the empty list. The secret
  melds are only collected, in front of the melds found in the hand.
\<close>

theorem calculateHandPoints_ignores_secretMelds:
  "calculateHandPoints h s1 = calculateHandPoints h s2 \<and>
   calculateHandPoints h s1 = calculateHandPoints h [] \<and>
   snd (chpLoop h s1) = s1 @ snd (chpLoop h [])"
proof -
  have "\<And>a b. calculateHandPoints h a = calculateHandPoints h b"
  proof -
    fix a b
    obtain c1 m1 where 1: "chpLoop h a = (c1, m1)" by (cases "chpLoop h a")
    obtain c2 m2 where 2: "chpLoop h b = (c2, m2)" by (cases "chpLoop h b")
    from chpLoop_melds_irrelevant[of h a b] 1 2 have "c1 = c2" by simp
    with 1 2 show "calculateHandPoints h a = calculateHandPoints h b"
      by (simp add: calculateHandPoints_def)
  qed
  moreover have "snd (chpLoop h s1) = s1 @ snd (chpLoop h [])"
    using chpLoop_melds_prefix[of h s1 "[]"] by simp
  ultimately show ?thesis by blast
qed

theorem calculateHandPoints_ignores_secretMelds_witness:
  "calculateHandPoints [createCard Hearts R9, createCard Spades R9, createCard Clubs R9,
       createCard Hearts R4]
     [[createCard Hearts RA, createCard Hearts R2, createCard Hearts R3]] = 4"
proof -
  have "calculateHandPoints [createCard Hearts R9, createCard Spades R9, createCard Clubs R9,
       createCard Hearts R4] [] = 4"
    by code_simp
  then show ?thesis
    using calculateHandPoints_ignores_secretMelds[of
        "[createCard Hearts R9, createCard Spades R9, createCard Clubs R9, createCard Hearts R4]"
        "[[createCard Hearts RA, createCard Hearts R2, createCard Hearts R3]]" "[]"]
    by simp
qed

section \<open>The turn state machine: lemmas and claims\<close>

lemma nthNat_Some: "nthNat xs i = Some x \<Longrightarrow> i < length xs \<and> xs ! i = x"
  by (auto simp: nthNat_def split: if_splits)

lemma nthJs_Some: "nthJs xs i = Some x \<Longrightarrow> 0 \<le> i \<and> nat i < length xs \<and> xs ! nat i = x"
  by (auto simp: nthJs_def split: if_splits)

lemma map_update_same: "i < length xs \<Longrightarrow> f y = f (xs ! i) \<Longrightarrow> map f (xs[i := y]) = map f xs"
  by (simp add: map_update list_update_same_conv)

lemma findIndex_Some: "findIndex P xs = Some i \<Longrightarrow> i < length xs \<and> P (xs ! i)"
proof (induction xs arbitrary: i)
  case Nil
  then show ?case by simp
next
  case (Cons x xs)
  then show ?case by (auto split: if_splits)
qed

lemma handleDraw_flags:
  "handleDraw g fd mi = Inr g' \<Longrightarrow> map isSapawed (players g') = map isSapawed (players g)"
  by (auto simp: handleDraw_def handleDrawWith_def moduleScope_def setCurrentPlayer_def currentPlayer_def Let_def map_update_same
      dest!: nthNat_Some split: if_splits option.splits sum.splits prod.splits)

lemma handleDiscard_flags:
  "handleDiscard g i = Inr g' \<Longrightarrow> map isSapawed (players g') = map isSapawed (players g)"
  by (auto simp: handleDiscard_def setCurrentPlayer_def currentPlayer_def Let_def map_update_same
      dest!: nthNat_Some split: if_splits option.splits)

lemma handleTongits_flags:
  "handleTongits g = Inr g' \<Longrightarrow> map isSapawed (players g') = map isSapawed (players g)"
  by (auto simp: handleTongits_def setCurrentPlayer_def currentPlayer_def Let_def map_update_same
      o_def if_distrib[of isSapawed] cong: if_cong
      dest!: nthNat_Some split: if_splits option.splits)

lemma handleMeld_flags:
  "handleMeld g idxs = Inr g' \<Longrightarrow> map isSapawed (players g') = map isSapawed (players g)"
  by (auto simp: handleMeld_def setCurrentPlayer_def currentPlayer_def Let_def map_update_same
      dest!: nthNat_Some handleTongits_flags split: if_splits option.splits)

lemma handleCallDraw_flags:
  "handleCallDraw g = Inr g' \<Longrightarrow> map isSapawed (players g') = map isSapawed (players g)"
  by (auto simp: handleCallDraw_def Let_def o_def split: if_splits option.splits)

lemma handleAutoSort_flags:
  "handleAutoSort g i = Inr g' \<Longrightarrow> map isSapawed (players g') = map isSapawed (players g)"
  by (auto simp: handleAutoSort_def map_update_same dest!: nthNat_Some split: option.splits)

lemma handleShuffle_flags:
  "handleShuffle r g i = Inr g' \<Longrightarrow> map isSapawed (players g') = map isSapawed (players g)"
  by (auto simp: handleShuffle_def map_update_same dest!: nthNat_Some split: option.splits)





lemma handleSapaw_length:
  "handleSapaw g tp tm idxs = Inr g' \<Longrightarrow> length (players g') = length (players g)"
  by (auto simp: handleSapaw_def Let_def split: if_splits option.splits)


lemma flags_length: "map isSapawed ps' = map isSapawed ps \<Longrightarrow> length ps' = length ps"
  by (metis length_map)

lemma onPlayerAction_length:
  "onPlayerAction r g sid a = Inr g' \<Longrightarrow> length (players g') = length (players g)"
proof -
  assume s: "onPlayerAction r g sid a = Inr g'"
  show ?thesis
  proof (cases "findIndex (\<lambda>p. pid p = sid) (players g) = Some (currentPlayerIndex g)")
    case False
    with s show ?thesis by (auto simp: onPlayerAction_def split: option.splits if_splits)
  next
    case True
    with s have h: "handlePlayerAction r g a (currentPlayerIndex g) = Inr g'"
      by (simp add: onPlayerAction_def)
    show ?thesis
    proof (cases a)
      case (Draw fd mi)
      with h show ?thesis
        by (auto simp: handlePlayerAction_def dest: handleDraw_flags[THEN flags_length]
            split: if_splits)
    next
      case (Discard i)
      with h show ?thesis
        by (auto simp: handlePlayerAction_def dest: handleDiscard_flags[THEN flags_length]
            split: if_splits sum.splits)
    next
      case (Meld idxs)
      with h show ?thesis
        by (auto simp: handlePlayerAction_def dest: handleMeld_flags[THEN flags_length])
    next
      case (Sapaw tp tm idxs)
      with h show ?thesis
        by (auto simp: handlePlayerAction_def dest: handleSapaw_length)
    next
      case CallDraw
      with h show ?thesis
        by (auto simp: handlePlayerAction_def dest: handleCallDraw_flags[THEN flags_length])
    next
      case (UpdateSelectedIndices x)
      with h show ?thesis by (auto simp: handlePlayerAction_def)
    next
      case AutoSort
      with h show ?thesis
        by (auto simp: handlePlayerAction_def dest: handleAutoSort_flags[THEN flags_length])
    next
      case Shuffle
      with h show ?thesis
        by (auto simp: handlePlayerAction_def dest: handleShuffle_flags[THEN flags_length])
    next
      case NextGame
      with h show ?thesis
        by (auto simp: handlePlayerAction_def handleNextGame_def split: prod.splits)
    next
      case ResetGame
      with h show ?thesis
        by (auto simp: handlePlayerAction_def handleResetGame_def handleNextGame_def split: prod.splits)
    next
      case Unknown
      with h show ?thesis by (auto simp: handlePlayerAction_def)
    qed
  qed
qed




text \<open>
  Concrete sessions: three sockets have joined; \<open>identityRng\<close> swaps every position with
  itself, so the deck keeps the order in which \<open>createDeck\<close> builds it; \<open>kingsRng\<close>
  deals the four kings to seat 0 first. \<open>sapawFlags\<close> and \<open>turnView\<close> read the fields
  the examples look at.
\<close>

definition exampleLobby :: game where
  "exampleLobby =
     joinGame (joinGame (joinGame (newGame ''g'') ''s0'' ''ann'') ''s1'' ''bob'') ''s2'' ''cy''"

definition identityRng :: rng where
  "identityRng i = i"

definition kingsRng :: rng where
  "kingsRng i = (if i = 48 then 38 else if i = 45 then 25 else if i = 42 then 12 else i)"


definition turnView :: "game \<Rightarrow> nat \<times> bool \<times> bool \<times> card option list" where
  "turnView g = (currentPlayerIndex g, hasDrawnThisTurn g, firstPlayerHasPlayed g, discardPile g)"

text \<open>
  The \<^verbatim>\<open>join-game\<close> handler seats the socket that asks without looking whether it is
  seated already: in \<open>twiceJoinedLobby\<close> the socket \<open>s0\<close> has joined twice and holds
  seats 0 and 1. \<open>handPoints\<close> and \<open>roundResult\<close> read the points of the hands and how
  a round has ended.
\<close>

definition twiceJoinedLobby :: game where
  "twiceJoinedLobby =
     joinGame (joinGame (joinGame (newGame ''g'') ''s0'' ''ann'') ''s0'' ''ann'') ''s2'' ''cy''"

definition handPoints :: "game \<Rightarrow> nat list" where
  "handPoints g = map (\<lambda>p. calculateHandPoints (hand p) []) (players g)"

definition roundResult :: "game \<Rightarrow> bool \<times> nat option \<times> nat list \<times> nat list" where
  "roundResult g =
     (gameEnded g, winner g, map score (players g), map consecutiveWins (players g))"




text \<open>
  C5. The claim restricts a discard without a draw to seat 0's first discard of the
  round. \<open>handleDiscard\<close> tests \<open>currentPlayerIndex \<noteq> 0\<close> instead of
  \<open>firstPlayerHasPlayed\<close>, which the draw guard of \<open>handlePlayerAction\<close> uses: after one
  full rotation seat 0 is current again, has not drawn, has already played, and its
  discard is accepted all the same (the turn moves on to seat 1 and the ten of spades
  lies on the discard pile).
\<close>

theorem seat0_discards_without_drawing:
  "map_sum id turnView
     (run (startGame identityRng exampleLobby)
        [(identityRng, ''s0'', Discard 0),
         (identityRng, ''s1'', Draw True []), (identityRng, ''s1'', Discard 0),
         (identityRng, ''s2'', Draw True []), (identityRng, ''s2'', Discard 0)])
   = Inr (0, False, True,
          [Some (createCard Spades RK), Some (createCard Spades RQ), Some (createCard Spades RJ)]) \<and>
   map_sum id turnView
     (run (startGame identityRng exampleLobby)
        [(identityRng, ''s0'', Discard 0),
         (identityRng, ''s1'', Draw True []), (identityRng, ''s1'', Discard 0),
         (identityRng, ''s2'', Draw True []), (identityRng, ''s2'', Discard 0),
         (identityRng, ''s0'', Discard 0)])
   = Inr (1, False, True,
          [Some (createCard Spades RK), Some (createCard Spades RQ), Some (createCard Spades RJ),
           Some (createCard Spades R10)])"
  by code_simp


lemma nthJs_outside: "k < 0 \<or> int (length xs) \<le> k \<Longrightarrow> nthJs xs k = None"
  by (auto simp: nthJs_def)

lemma invalid_with_outside_index:
  assumes "k \<in> set idxs" "k < 0 \<or> int (length h) \<le> k"
  shows "\<not> isValidMeld (pre @ map (nthJs h) idxs @ post)"
proof -
  from assms have "None \<in> set (map (nthJs h) idxs)"
    using nthJs_outside[of k h] by (force simp: image_iff)
  then show ?thesis by (intro isValidMeld_undefined) simp
qed



lemma handleSapaw_no_target:
  "nthJs (players g) tp = None \<Longrightarrow> handleSapaw g tp tm idxs = Inl (TypeError, g)"
  by (simp add: handleSapaw_def)

lemma handleSapaw_no_meld:
  "nthJs (players g) tp = Some t \<Longrightarrow> nthJs (exposedMelds t) tm = None \<Longrightarrow>
   handleSapaw g tp tm idxs = Inl (TypeError, g)"
  by (simp add: handleSapaw_def)





lemma find_by_key:
  "distinct (map f xs) \<Longrightarrow> j < length xs \<Longrightarrow>
   List.find (\<lambda>s. fst s = f (xs ! j)) (map (\<lambda>p. (f p, h p)) xs) = Some (f (xs ! j), h (xs ! j))"
proof (induction xs arbitrary: j)
  case Nil
  then show ?case by simp
next
  case (Cons x xs)
  show ?case
  proof (cases j)
    case 0
    then show ?thesis by simp
  next
    case (Suc k)
    with Cons.prems have "f x \<noteq> f (xs ! k)" by auto
    with Cons Suc show ?thesis by auto
  qed
qed

lemma findIndex_by_key:
  "distinct (map f xs) \<Longrightarrow> j < length xs \<Longrightarrow> findIndex (\<lambda>p. f p = f (xs ! j)) xs = Some j"
proof (induction xs arbitrary: j)
  case Nil
  then show ?case by simp
next
  case (Cons x xs)
  show ?case
  proof (cases j)
    case 0
    then show ?thesis by simp
  next
    case (Suc k)
    with Cons.prems have "f x \<noteq> f (xs ! k)" by auto
    with Cons Suc show ?thesis by auto
  qed
qed

lemma lowestScore_snoc:
  "xs \<noteq> [] \<Longrightarrow> lowestScore xs = Some m \<Longrightarrow>
   lowestScore (xs @ [x]) = Some (if snd x < snd m then x else m)"
  by (cases xs) (auto simp: lowestScore_def)

lemma lowestScore_first_minimum:
  "xs \<noteq> [] \<Longrightarrow>
   \<exists>w < length xs. lowestScore xs = Some (xs ! w) \<and>
      (\<forall>j < length xs. snd (xs ! w) \<le> snd (xs ! j)) \<and>
      (\<forall>j < w. snd (xs ! w) < snd (xs ! j))"
proof (induction xs rule: rev_induct)
  case Nil
  then show ?case by simp
next
  case (snoc x xs)
  show ?case
  proof (cases "xs = []")
    case True
    then show ?thesis by (simp add: lowestScore_def)
  next
    case False
    from snoc.IH[OF False] obtain w where w: "w < length xs" "lowestScore xs = Some (xs ! w)"
      "\<forall>j < length xs. snd (xs ! w) \<le> snd (xs ! j)" "\<forall>j < w. snd (xs ! w) < snd (xs ! j)"
      by blast
    note step = lowestScore_snoc[OF False w(2), of x]
    show ?thesis
    proof (cases "snd x < snd (xs ! w)")
      case True
      have "\<forall>j < length (xs @ [x]). snd x \<le> snd ((xs @ [x]) ! j)"
      proof (intro allI impI)
        fix j assume "j < length (xs @ [x])"
        then show "snd x \<le> snd ((xs @ [x]) ! j)"
          using True w(3) by (cases "j < length xs") (auto simp: nth_append less_Suc_eq intro: less_imp_le order_trans)
      qed
      moreover have "\<forall>j < length xs. snd x < snd ((xs @ [x]) ! j)"
        using True w(3) by (auto simp: nth_append intro: less_le_trans)
      ultimately show ?thesis using step True
        by (intro exI[of _ "length xs"]) (simp add: nth_append)
    next
      case False
      have "\<forall>j < length (xs @ [x]). snd (xs ! w) \<le> snd ((xs @ [x]) ! j)"
      proof (intro allI impI)
        fix j assume "j < length (xs @ [x])"
        then show "snd (xs ! w) \<le> snd ((xs @ [x]) ! j)"
          using False w(3) by (cases "j < length xs") (auto simp: nth_append less_Suc_eq)
      qed
      moreover have "\<forall>j < w. snd (xs ! w) < snd ((xs @ [x]) ! j)"
        using w(1,4) by (auto simp: nth_append)
      ultimately show ?thesis using step False w(1)
        by (intro exI[of _ w]) (simp add: nth_append)
    qed
  qed
qed

lemma handleCallDraw_result:
  assumes ne: "players g \<noteq> []" and ids: "distinct (map pid (players g))"
  shows "\<exists>w < length (players g).
     handleCallDraw g =
       Inr (g\<lparr>players :=
                 map (\<lambda>p. p\<lparr>score := calculateHandPoints (hand p) [],
                             consecutiveWins := (if pid p = pid (players g ! w)
                                                 then consecutiveWins p + 1 else 0)\<rparr>)
                   (players g),
               winner := Some w, gameEnded := True\<rparr>) \<and>
     (\<forall>j < length (players g).
        calculateHandPoints (hand (players g ! w)) [] \<le> calculateHandPoints (hand (players g ! j)) []) \<and>
     (\<forall>j < w.
        calculateHandPoints (hand (players g ! w)) [] < calculateHandPoints (hand (players g ! j)) [])"
proof -
  let ?sc = "map (\<lambda>p. (pid p, calculateHandPoints (hand p) [])) (players g)"
  from ne have "?sc \<noteq> []" by simp
  from lowestScore_first_minimum[OF this] obtain w where w: "w < length (players g)"
    "lowestScore ?sc = Some (?sc ! w)"
    "\<forall>j < length ?sc. snd (?sc ! w) \<le> snd (?sc ! j)" "\<forall>j < w. snd (?sc ! w) < snd (?sc ! j)"
    by auto
  have found: "\<And>p. p \<in> set (players g) \<Longrightarrow>
      List.find (\<lambda>s. fst s = pid p) ?sc = Some (pid p, calculateHandPoints (hand p) [])"
  proof -
    fix p assume "p \<in> set (players g)"
    then obtain j where "j < length (players g)" "players g ! j = p"
      by (auto simp: in_set_conv_nth)
    with find_by_key[OF ids, of j "\<lambda>p. calculateHandPoints (hand p) []"] show
      "List.find (\<lambda>s. fst s = pid p) ?sc = Some (pid p, calculateHandPoints (hand p) [])" by simp
  qed
  have all: "list_all (\<lambda>p. List.find (\<lambda>s. fst s = pid p) ?sc \<noteq> None) (players g)"
    using found by (auto simp: list_all_iff)
  have win: "findIndex (\<lambda>p. pid p = fst (?sc ! w)) (players g) = Some w"
    using findIndex_by_key[OF ids w(1)] w(1) by simp
  have pl: "map (\<lambda>p. p\<lparr>score := (case List.find (\<lambda>s. fst s = pid p) ?sc of
                                              None \<Rightarrow> score p | Some s \<Rightarrow> snd s),
                        consecutiveWins := (if pid p = fst (?sc ! w)
                                                      then consecutiveWins p + 1 else 0)\<rparr>)
                        (players g)
      = map (\<lambda>p. p\<lparr>score := calculateHandPoints (hand p) [],
                             consecutiveWins := (if pid p = pid (players g ! w)
                                                 then consecutiveWins p + 1 else 0)\<rparr>)
                   (players g)"
    using found w(1) by (intro map_cong) auto
  have "handleCallDraw g =
       Inr (g\<lparr>players :=
                 map (\<lambda>p. p\<lparr>score := calculateHandPoints (hand p) [],
                             consecutiveWins := (if pid p = pid (players g ! w)
                                                 then consecutiveWins p + 1 else 0)\<rparr>)
                   (players g),
               winner := Some w, gameEnded := True\<rparr>)"
    unfolding handleCallDraw_def Let_def using w(2) all win pl by simp
  moreover have "\<forall>j < length (players g).
        calculateHandPoints (hand (players g ! w)) [] \<le> calculateHandPoints (hand (players g ! j)) []"
    using w(1,3) by auto
  moreover have "\<forall>j < w.
        calculateHandPoints (hand (players g ! w)) [] < calculateHandPoints (hand (players g ! j)) []"
    using w(1,4) by auto
  ultimately show ?thesis using w(1) by blast
qed

lemma pid_distinct_nth:
  "distinct (map pid ps) \<Longrightarrow> i < length ps \<Longrightarrow> j < length ps \<Longrightarrow>
   (pid (ps ! i) = pid (ps ! j)) = (i = j)"
  by (metis distinct_conv_nth length_map nth_map)

text \<open>
  C8, as stated, fails when two seats share a socket id. \<open>handleCallDraw\<close> looks scores and
  the winner up by \<^verbatim>\<open>id\<close>. In the session of \<open>twiceJoinedLobby\<close> the hands are worth 85, 83
  and 84 points. After \<open>callDraw\<close> seat 1, with the lowest hand, has the score 85 of seat
  0; the winner is seat 0, with the highest hand; and the streaks of both seats 0 and 1
  have grown.
\<close>

theorem callDraw_shared_id_counterexample:
  "map pid (players (startGame identityRng twiceJoinedLobby)) = [''s0'', ''s0'', ''s2''] \<and>
   handPoints (startGame identityRng twiceJoinedLobby) = [85, 83, 84] \<and>
   map_sum id roundResult
     (onPlayerAction identityRng (startGame identityRng twiceJoinedLobby) ''s0'' CallDraw)
   = Inr (True, Some 0, [85, 85, 84], [1, 1, 0])"
  by code_simp

text \<open>
  C8, amended. Provided the socket ids of the seats are pairwise distinct, \<open>callDraw\<close>
  ends the round at once. Every player's score becomes the points of their current
  hand, computed with no secret melds. The winner has the lowest score, strictly lower
  than every earlier seat's (ties go to the first seat); the winner's streak grows by
  one and every other streak is reset to 0.
\<close>

theorem callDraw_lowest_hand_wins:
  assumes ne: "players g \<noteq> []" and ids: "distinct (map pid (players g))"
  shows "\<exists>g' w. handlePlayerAction r g CallDraw i = Inr g' \<and>
     gameEnded g' \<and> winner g' = Some w \<and> w < length (players g) \<and>
     length (players g') = length (players g) \<and>
     (\<forall>j < length (players g).
        score (players g' ! j) = calculateHandPoints (hand (players g ! j)) [] \<and>
        consecutiveWins (players g' ! j) =
          (if j = w then consecutiveWins (players g ! j) + 1 else 0)) \<and>
     (\<forall>j < length (players g).
        calculateHandPoints (hand (players g ! w)) [] \<le> calculateHandPoints (hand (players g ! j)) []) \<and>
     (\<forall>j < w.
        calculateHandPoints (hand (players g ! w)) [] < calculateHandPoints (hand (players g ! j)) [])"
proof -
  from handleCallDraw_result[OF ne ids] obtain w where w: "w < length (players g)"
    and res: "handleCallDraw g =
       Inr (g\<lparr>players :=
                 map (\<lambda>p. p\<lparr>score := calculateHandPoints (hand p) [],
                             consecutiveWins := (if pid p = pid (players g ! w)
                                                 then consecutiveWins p + 1 else 0)\<rparr>)
                   (players g),
               winner := Some w, gameEnded := True\<rparr>)"
    and low: "\<forall>j < length (players g).
        calculateHandPoints (hand (players g ! w)) [] \<le> calculateHandPoints (hand (players g ! j)) []"
    and first: "\<forall>j < w.
        calculateHandPoints (hand (players g ! w)) [] < calculateHandPoints (hand (players g ! j)) []"
    by blast
  let ?g' = "g\<lparr>players :=
                 map (\<lambda>p. p\<lparr>score := calculateHandPoints (hand p) [],
                             consecutiveWins := (if pid p = pid (players g ! w)
                                                 then consecutiveWins p + 1 else 0)\<rparr>)
                   (players g),
               winner := Some w, gameEnded := True\<rparr>"
  have step: "handlePlayerAction r g CallDraw i = Inr ?g'"
    using res by (simp add: handlePlayerAction_def)
  have each: "\<forall>j < length (players g).
        score (players ?g' ! j) = calculateHandPoints (hand (players g ! j)) [] \<and>
        consecutiveWins (players ?g' ! j) =
          (if j = w then consecutiveWins (players g ! j) + 1 else 0)"
    using pid_distinct_nth[OF ids _ w] by simp
  from step each low first w show ?thesis
    by (intro exI[of _ ?g'] exI[of _ w]) simp
qed



text \<open>
  The state a run ends in (the start state if it raised), a shuffle that deals seat 0
  four kings, three queens, three jacks and three tens, and the state of that session
  after seat 0 has melded the kings, the queens and the jacks.
\<close>

definition stateAfter :: "game \<Rightarrow> (rng \<times> string \<times> action) list \<Rightarrow> game" where
  "stateAfter g evs = (case run g evs of Inl e \<Rightarrow> g | Inr g' \<Rightarrow> g')"





theorem callDraw_lowest_hand_wins_witness:
  "\<exists>g' w. handlePlayerAction identityRng (startGame identityRng exampleLobby) CallDraw 0 = Inr g' \<and>
     gameEnded g' \<and> winner g' = Some w \<and> w < length (players (startGame identityRng exampleLobby)) \<and>
     length (players g') = length (players (startGame identityRng exampleLobby)) \<and>
     (\<forall>j < length (players (startGame identityRng exampleLobby)).
        score (players g' ! j) =
          calculateHandPoints (hand (players (startGame identityRng exampleLobby) ! j)) [] \<and>
        consecutiveWins (players g' ! j) =
          (if j = w then consecutiveWins (players (startGame identityRng exampleLobby) ! j) + 1 else 0)) \<and>
     (\<forall>j < length (players (startGame identityRng exampleLobby)).
        calculateHandPoints (hand (players (startGame identityRng exampleLobby) ! w)) []
          \<le> calculateHandPoints (hand (players (startGame identityRng exampleLobby) ! j)) []) \<and>
     (\<forall>j < w.
        calculateHandPoints (hand (players (startGame identityRng exampleLobby) ! w)) []
          < calculateHandPoints (hand (players (startGame identityRng exampleLobby) ! j)) [])"
proof -
  have ne: "players (startGame identityRng exampleLobby) \<noteq> []" by code_simp
  have ids: "distinct (map pid (players (startGame identityRng exampleLobby)))" by code_simp
  from callDraw_lowest_hand_wins[OF ne ids, of identityRng 0] show ?thesis .
qed


section \<open>Drawing\<close>

text \<open>The drawn card \<open>c\<close> and two hand cards form a meld.\<close>

definition meldWith :: "card \<Rightarrow> card \<Rightarrow> card \<Rightarrow> bool" where
  "meldWith c a b = isValidMeld [Some c, Some a, Some b]"

lemma pairLoopJ_Some:
  "pairLoopJ c s i j = Some (a, b) \<Longrightarrow> a = i \<and> j \<le> b \<and> b < length s \<and> meldWith c (s ! i) (s ! b)"
proof (induction c s i j rule: pairLoopJ.induct)
  case (1 c s i j)
  from "1.prems" have j: "j < length s"
    by (subst (asm) pairLoopJ.simps) (simp split: if_splits)
  show ?case
  proof (cases "isValidMeld [Some c, Some (s ! i), Some (s ! j)]")
    case True
    with "1.prems" j show ?thesis by (subst (asm) pairLoopJ.simps) (simp add: meldWith_def)
  next
    case False
    with "1.prems" j have "pairLoopJ c s i (Suc j) = Some (a, b)"
      by (subst (asm) pairLoopJ.simps) simp
    from "1.IH"[OF j False this] show ?thesis by simp
  qed
qed

lemma pairLoopJ_None:
  "pairLoopJ c s i j = None \<Longrightarrow> j \<le> b \<Longrightarrow> b < length s \<Longrightarrow> \<not> meldWith c (s ! i) (s ! b)"
proof (induction c s i j rule: pairLoopJ.induct)
  case (1 c s i j)
  from "1.prems" have j: "j < length s" by simp
  from "1.prems"(1) j have nv: "\<not> isValidMeld [Some c, Some (s ! i), Some (s ! j)]"
    by (subst (asm) pairLoopJ.simps) (simp split: if_splits)
  with "1.prems"(1) j have rest: "pairLoopJ c s i (Suc j) = None"
    by (subst (asm) pairLoopJ.simps) simp
  show ?case
  proof (cases "b = j")
    case True
    with nv show ?thesis by (simp add: meldWith_def)
  next
    case False
    with "1.prems" have "Suc j \<le> b" by simp
    from "1.IH"[OF j nv rest this "1.prems"(3)] show ?thesis .
  qed
qed

lemma pairLoopI_Some:
  "pairLoopI c s i = Some (a, b) \<Longrightarrow> i \<le> a \<and> a < b \<and> b < length s \<and> meldWith c (s ! a) (s ! b)"
proof (induction c s i rule: pairLoopI.induct)
  case (1 c s i)
  from "1.prems" have i: "i + 1 < length s"
    by (subst (asm) pairLoopI.simps) (simp split: if_splits)
  show ?case
  proof (cases "pairLoopJ c s i (Suc i)")
    case None
    with "1.prems" i have "pairLoopI c s (Suc i) = Some (a, b)"
      by (subst (asm) pairLoopI.simps) simp
    from "1.IH"[OF i None this] show ?thesis by simp
  next
    case (Some t)
    with "1.prems" i have "pairLoopJ c s i (Suc i) = Some (a, b)"
      by (subst (asm) pairLoopI.simps) simp
    from pairLoopJ_Some[OF this] show ?thesis by simp
  qed
qed

lemma pairLoopI_None:
  "pairLoopI c s i = None \<Longrightarrow> i \<le> a \<Longrightarrow> a < b \<Longrightarrow> b < length s \<Longrightarrow> \<not> meldWith c (s ! a) (s ! b)"
proof (induction c s i rule: pairLoopI.induct)
  case (1 c s i)
  from "1.prems" have i: "i + 1 < length s" by simp
  from "1.prems"(1) i have row: "pairLoopJ c s i (Suc i) = None"
    by (subst (asm) pairLoopI.simps) (simp split: option.splits)
  with "1.prems"(1) i have rest: "pairLoopI c s (Suc i) = None"
    by (subst (asm) pairLoopI.simps) simp
  show ?case
  proof (cases "a = i")
    case True
    with "1.prems" pairLoopJ_None[OF row, of b] show ?thesis by simp
  next
    case False
    with "1.prems" have "Suc i \<le> a" by simp
    from "1.IH"[OF i row rest this "1.prems"(3,4)] show ?thesis .
  qed
qed

lemma filter_nth_ex:
  "k < length (filter P xs) \<Longrightarrow> \<exists>k'. k' < length xs \<and> xs ! k' = filter P xs ! k"
  by (metis (no_types, lifting) filter_is_subset in_set_conv_nth subsetD)

lemma filter_pair_up:
  "i < j \<Longrightarrow> j < length (filter P xs) \<Longrightarrow>
   \<exists>i' j'. i' < j' \<and> j' < length xs \<and> xs ! i' = filter P xs ! i \<and> xs ! j' = filter P xs ! j"
proof (induction xs arbitrary: i j)
  case Nil
  then show ?case by simp
next
  case (Cons x xs)
  show ?case
  proof (cases "P x")
    case False
    with Cons.prems Cons.IH[of i j] obtain i' j' where
      "i' < j'" "j' < length xs" "xs ! i' = filter P xs ! i" "xs ! j' = filter P xs ! j" by auto
    then have "Suc i' < Suc j' \<and> Suc j' < length (x # xs) \<and>
       (x # xs) ! Suc i' = filter P (x # xs) ! i \<and> (x # xs) ! Suc j' = filter P (x # xs) ! j"
      using False by simp
    then show ?thesis by blast
  next
    case True
    show ?thesis
    proof (cases i)
      case 0
      from Cons.prems 0 obtain j0 where j0: "j = Suc j0" by (cases j) auto
      with Cons.prems True have "j0 < length (filter P xs)" by simp
      from filter_nth_ex[OF this] obtain k where "k < length xs" "xs ! k = filter P xs ! j0" by blast
      then have "0 < Suc k \<and> Suc k < length (x # xs) \<and>
         (x # xs) ! 0 = filter P (x # xs) ! i \<and> (x # xs) ! Suc k = filter P (x # xs) ! j"
        using True 0 j0 by simp
      then show ?thesis by blast
    next
      case (Suc i0)
      from Cons.prems Suc obtain j0 where j0: "j = Suc j0" by (cases j) auto
      with Cons.prems True Suc Cons.IH[of i0 j0] obtain i' j' where
        "i' < j'" "j' < length xs" "xs ! i' = filter P xs ! i0" "xs ! j' = filter P xs ! j0" by auto
      then have "Suc i' < Suc j' \<and> Suc j' < length (x # xs) \<and>
         (x # xs) ! Suc i' = filter P (x # xs) ! i \<and> (x # xs) ! Suc j' = filter P (x # xs) ! j"
        using True Suc j0 by simp
      then show ?thesis by blast
    qed
  qed
qed

lemma filter_nth_down:
  "k < length xs \<Longrightarrow> P (xs ! k) \<Longrightarrow> \<exists>k'. k' < length (filter P xs) \<and> filter P xs ! k' = xs ! k"
proof -
  assume "k < length xs" "P (xs ! k)"
  then have "xs ! k \<in> set (filter P xs)" by simp
  then show ?thesis by (auto simp only: in_set_conv_nth)
qed

lemma filter_pair_down:
  "i < j \<Longrightarrow> j < length xs \<Longrightarrow> P (xs ! i) \<Longrightarrow> P (xs ! j) \<Longrightarrow>
   \<exists>i' j'. i' < j' \<and> j' < length (filter P xs) \<and> filter P xs ! i' = xs ! i \<and> filter P xs ! j' = xs ! j"
proof (induction xs arbitrary: i j)
  case Nil
  then show ?case by simp
next
  case (Cons x xs)
  from Cons.prems obtain j0 where j0: "j = Suc j0" by (cases j) auto
  show ?case
  proof (cases i)
    case 0
    with Cons.prems have px: "P x" by simp
    from Cons.prems j0 have "j0 < length xs" "P (xs ! j0)" by simp_all
    from filter_nth_down[of j0 xs P, OF this] obtain k
      where "k < length (filter P xs)" "filter P xs ! k = xs ! j0"
      by blast
    then have "0 < Suc k \<and> Suc k < length (filter P (x # xs)) \<and>
       filter P (x # xs) ! 0 = (x # xs) ! i \<and> filter P (x # xs) ! Suc k = (x # xs) ! j"
      using px 0 j0 by simp
    then show ?thesis by blast
  next
    case (Suc i0)
    with Cons.prems j0 Cons.IH[of i0 j0] obtain i' j' where
      d: "i' < j'" "j' < length (filter P xs)" "filter P xs ! i' = xs ! i0" "filter P xs ! j' = xs ! j0"
      by auto
    show ?thesis
    proof (cases "P x")
      case True
      with d Suc j0 have "Suc i' < Suc j' \<and> Suc j' < length (filter P (x # xs)) \<and>
       filter P (x # xs) ! Suc i' = (x # xs) ! i \<and> filter P (x # xs) ! Suc j' = (x # xs) ! j"
        by simp
      then show ?thesis by blast
    next
      case False
      with d Suc j0 have "i' < j' \<and> j' < length (filter P (x # xs)) \<and>
       filter P (x # xs) ! i' = (x # xs) ! i \<and> filter P (x # xs) ! j' = (x # xs) ! j"
        by simp
      then show ?thesis by blast
    qed
  qed
qed

lemma filter_two:
  "(2 \<le> length (filter P xs)) = (\<exists>i j. i < j \<and> j < length xs \<and> P (xs ! i) \<and> P (xs ! j))"
proof
  assume "2 \<le> length (filter P xs)"
  then have "(0::nat) < 1" "1 < length (filter P xs)" by simp_all
  from filter_pair_up[OF this] obtain i' j' where
    d: "i' < j'" "j' < length xs" "xs ! i' = filter P xs ! 0" "xs ! j' = filter P xs ! 1" by blast
  have "filter P xs ! 0 \<in> set (filter P xs)" "filter P xs ! 1 \<in> set (filter P xs)"
    using \<open>1 < length (filter P xs)\<close> by (simp_all only: nth_mem less_trans[OF zero_less_one])
  then have "P (filter P xs ! 0)" "P (filter P xs ! 1)" by simp_all
  with d show "\<exists>i j. i < j \<and> j < length xs \<and> P (xs ! i) \<and> P (xs ! j)" by metis
next
  assume "\<exists>i j. i < j \<and> j < length xs \<and> P (xs ! i) \<and> P (xs ! j)"
  then obtain i j where "i < j" "j < length xs" "P (xs ! i)" "P (xs ! j)" by blast
  from filter_pair_down[OF this] obtain i' j' where "i' < j'" "j' < length (filter P xs)" by blast
  then show "2 \<le> length (filter P xs)" by simp
qed

lemma meldWith_same_rank: "rank a = rank c \<Longrightarrow> rank b = rank c \<Longrightarrow> meldWith c a b"
  by (simp add: meldWith_def isValidMeld_def isThreeOfAKind_def sameRankAsFirst_def firstRank_def)

lemma meldWith_cases:
  assumes "meldWith c a b"
  shows "(rank a = rank c \<and> rank b = rank c) \<or> (suit a = suit c \<and> suit b = suit c)"
proof -
  from assms have "isValidMeld (map Some [c, a, b])" by (simp add: meldWith_def)
  then have "isSet_spec [c, a, b] \<or> isRun_spec [c, a, b]" by (simp only: isValidMeld_spec)
  then show ?thesis by (auto simp: isSet_spec_def isRun_spec_def)
qed

lemma canFormMeldWithCard_exists:
  "\<exists>ix. canFormMeldWithCard (Some c) h =
     Inr ((\<exists>a b. a < b \<and> b < length h \<and> meldWith c (h ! a) (h ! b)), ix)"
proof (cases "2 \<le> length (filter (\<lambda>x. rank x = rank c) h)")
  case True
  then obtain a b where "a < b" "b < length h" "rank (h ! a) = rank c" "rank (h ! b) = rank c"
    unfolding filter_two by blast
  then have "\<exists>a b. a < b \<and> b < length h \<and> meldWith c (h ! a) (h ! b)"
    using meldWith_same_rank by blast
  with True show ?thesis by (simp add: canFormMeldWithCard_def)
next
  case False
  let ?s = "filter (\<lambda>x. suit x = suit c) h"
  show ?thesis
  proof (cases "pairLoopI c ?s 0")
    case (Some t)
    obtain i j where t: "t = (i, j)" by (cases t) auto
    from pairLoopI_Some[of c ?s 0 i j] Some t
    have ij: "i < j" "j < length ?s" "meldWith c (?s ! i) (?s ! j)" by auto
    from filter_pair_up[OF ij(1,2)] ij(3)
    have "\<exists>a b. a < b \<and> b < length h \<and> meldWith c (h ! a) (h ! b)" by metis
    with False Some t show ?thesis by (simp add: canFormMeldWithCard_def Let_def)
  next
    case None
    have "\<not> (\<exists>a b. a < b \<and> b < length h \<and> meldWith c (h ! a) (h ! b))"
    proof
      assume "\<exists>a b. a < b \<and> b < length h \<and> meldWith c (h ! a) (h ! b)"
      then obtain a b where ab: "a < b" "b < length h" "meldWith c (h ! a) (h ! b)" by blast
      from meldWith_cases[OF ab(3)] show False
      proof
        assume "rank (h ! a) = rank c \<and> rank (h ! b) = rank c"
        with ab have "2 \<le> length (filter (\<lambda>x. rank x = rank c) h)"
          unfolding filter_two by blast
        with False show False by simp
      next
        assume "suit (h ! a) = suit c \<and> suit (h ! b) = suit c"
        with filter_pair_down[OF ab(1,2), of "\<lambda>x. suit x = suit c"] obtain i j where
          "i < j" "j < length ?s" "?s ! i = h ! a" "?s ! j = h ! b" by auto
        with pairLoopI_None[OF None, of i j] ab(3) show False by simp
      qed
    qed
    with False None show ?thesis by (simp add: canFormMeldWithCard_def Let_def)
  qed
qed

lemma canFormMeldWithCard_rank_first:
  "2 \<le> length (filter (\<lambda>x. rank x = rank c) h) \<Longrightarrow>
   canFormMeldWithCard (Some c) h =
     Inr (True, map int (take 2 (filter (\<lambda>k. rank (h ! k) = rank c) [0..<length h])))"
  by (simp add: canFormMeldWithCard_def)

lemma canFormMeldWithCard_undefined:
  "canFormMeldWithCard None h = Inr (b, ix) \<Longrightarrow> \<not> b"
  by (auto simp: canFormMeldWithCard_def split: if_splits)

lemma canFormMeldWithCard_Some:
  "canFormMeldWithCard (Some c) h = Inr (b, ix) \<Longrightarrow>
   b = (\<exists>i j. i < j \<and> j < length h \<and> meldWith c (h ! i) (h ! j))"
  using canFormMeldWithCard_exists[of c h] by auto

lemma handleDraw_sets_flag:
  assumes "handleDraw g fd mi = Inr g'" "g' \<noteq> g"
  shows "hasDrawnThisTurn g'"
  using assms
  by (auto simp: handleDraw_def handleDrawWith_def moduleScope_def Let_def split: if_splits option.splits sum.splits prod.splits
      dest: canFormMeldWithCard_undefined)

lemma handleDraw_pile_throws:
  "\<not> hasDrawnThisTurn g \<Longrightarrow> discardPile g \<noteq> [] \<Longrightarrow>
   handleDraw g False mi = Inl (ReferenceError, g)"
  by (simp add: handleDraw_def handleDrawWith_def moduleScope_def)

section \<open>Removing cards by index\<close>

lemma splice1_inbounds: "0 \<le> d \<Longrightarrow> nat d < length h \<Longrightarrow> splice1 d h = removeAt (nat d) h"
  by (simp add: splice1_def spliceStart_def min_def)

lemma spliced1_inbounds: "0 \<le> d \<Longrightarrow> nat d < length h \<Longrightarrow> spliced1 d h = Some (h ! nat d)"
  by (simp add: spliced1_def spliceStart_def min_def nthNat_def)

lemma mset_removeAt: "k < length h \<Longrightarrow> mset (removeAt k h) + {#h ! k#} = mset h"
proof -
  assume k: "k < length h"
  have "mset h = mset (take k h @ h ! k # drop (Suc k) h)"
    using id_take_nth_drop[OF k] by simp
  then show ?thesis by (simp add: removeAt_def)
qed

lemma nth_removeAt_below: "r < k \<Longrightarrow> k < length h \<Longrightarrow> removeAt k h ! r = h ! r"
  by (simp add: removeAt_def nth_append)

lemma fold_splice1_desc:
  "sorted_wrt (\<lambda>x y. x > y) ds \<Longrightarrow> \<forall>d \<in> set ds. 0 \<le> d \<and> nat d < length h \<Longrightarrow>
   mset (fold splice1 ds h) + mset (map (\<lambda>k. h ! nat k) ds) = mset h"
proof (induction ds arbitrary: h)
  case Nil
  then show ?case by simp
next
  case (Cons d rest)
  from Cons.prems have d: "0 \<le> d" "nat d < length h" by simp_all
  let ?h = "removeAt (nat d) h"
  have below: "\<forall>r \<in> set rest. 0 \<le> r \<and> nat r < nat d"
  proof
    fix r assume r: "r \<in> set rest"
    with Cons.prems have "0 \<le> r" "r < d" by auto
    then show "0 \<le> r \<and> nat r < nat d" by simp
  qed
  have len: "length ?h = length h - 1" using d by (simp add: length_removeAt)
  have inb: "\<forall>r \<in> set rest. 0 \<le> r \<and> nat r < length ?h"
    using below d len by fastforce
  have same: "map (\<lambda>k. ?h ! nat k) rest = map (\<lambda>k. h ! nat k) rest"
    using below d by (intro map_cong) (auto simp: nth_removeAt_below)
  from Cons.prems have "sorted_wrt (\<lambda>x y. x > y) rest" by simp
  from Cons.IH[OF this inb] same
  have "mset (fold splice1 rest ?h) + mset (map (\<lambda>k. h ! nat k) rest) = mset ?h" by simp
  moreover have "mset ?h + {#h ! nat d#} = mset h" using d by (intro mset_removeAt)
  ultimately show ?case using d by (simp add: splice1_inbounds)
qed

lemma sortDescending_desc: "distinct idxs \<Longrightarrow> sorted_wrt (\<lambda>x y. x > y) (sortDescending idxs)"
proof -
  assume "distinct idxs"
  then have "sorted_wrt (<) (sort idxs)" by (simp add: strict_sorted_iff)
  then show ?thesis by (simp add: sortDescending_def sorted_wrt_rev)
qed

lemma removeIndices_mset:
  assumes "distinct idxs" "\<forall>k \<in> set idxs. 0 \<le> k \<and> nat k < length h"
  shows "mset (removeIndices h idxs) + mset (map (\<lambda>k. h ! nat k) idxs) = mset h"
proof -
  have "\<forall>d \<in> set (sortDescending idxs). 0 \<le> d \<and> nat d < length h"
    using assms(2) by (simp add: sortDescending_def)
  from fold_splice1_desc[OF sortDescending_desc[OF assms(1)] this]
  have "mset (removeIndices h idxs) + mset (map (\<lambda>k. h ! nat k) (sortDescending idxs)) = mset h"
    by (simp add: removeIndices_def)
  moreover have "mset (map (\<lambda>k. h ! nat k) (sortDescending idxs)) = mset (map (\<lambda>k. h ! nat k) idxs)"
    by (simp add: sortDescending_def)
  ultimately show ?thesis by simp
qed

lemma definedCards_nthJs:
  "\<forall>k \<in> set idxs. 0 \<le> k \<and> nat k < length h \<Longrightarrow>
   definedCards (map (nthJs h) idxs) = map (\<lambda>k. h ! nat k) idxs"
  by (induction idxs) (auto simp: definedCards_def nthJs_def)

lemma definedCards_append: "definedCards (xs @ ys) = definedCards xs @ definedCards ys"
  by (simp add: definedCards_def)

lemma definedCards_Some: "definedCards [Some c] = [c]"
  by (simp add: definedCards_def)

lemma valid_inbounds:
  assumes "isValidMeld (pre @ map (nthJs h) idxs @ post)"
  shows "\<forall>k \<in> set idxs. 0 \<le> k \<and> nat k < length h"
proof
  fix k assume k: "k \<in> set idxs"
  show "0 \<le> k \<and> nat k < length h"
  proof (rule ccontr)
    assume "\<not> (0 \<le> k \<and> nat k < length h)"
    then have "k < 0 \<or> int (length h) \<le> k" by auto
    from invalid_with_outside_index[OF k this] assms show False by blast
  qed
qed

lemma removeIndices_meld:
  assumes "distinct idxs" "isValidMeld (pre @ map (nthJs h) idxs @ post)"
  shows "mset (removeIndices h idxs) + mset (definedCards (map (nthJs h) idxs)) = mset h"
  using removeIndices_mset[OF assms(1) valid_inbounds[OF assms(2)]]
    definedCards_nthJs[OF valid_inbounds[OF assms(2)]] by simp

section \<open>Discarding and the turn\<close>

text \<open>
  What an accepted discard does, when a discard is refused, and that no action other
  than a discard (and the two that start a new round) changes whose turn it is.
\<close>

lemma handleDiscard_accepted:
  assumes "currentPlayer g = Some p" "hasDrawnThisTurn g \<or> currentPlayerIndex g = 0"
    "0 \<le> k" "k < int (length (hand p))"
  shows "handleDiscard g k =
     Inr ((setCurrentPlayer g
             (p\<lparr>hand := removeAt (nat k) (hand p), turnsPlayed := turnsPlayed p + 1\<rparr>))
          \<lparr>discardPile := discardPile g @ [Some (hand p ! nat k)],
           currentPlayerIndex := (currentPlayerIndex g + 1) mod length (players g),
           hasDrawnThisTurn := False,
           selectedCardIndices := []\<rparr>)"
  using assms
  by (auto simp: handleDiscard_def Let_def splice1_inbounds spliced1_inbounds)

lemma handleDiscard_refused:
  "\<not> hasDrawnThisTurn g \<Longrightarrow> currentPlayerIndex g \<noteq> 0 \<Longrightarrow> handleDiscard g k = Inr g"
  by (simp add: handleDiscard_def)

lemma turn_kept:
  assumes "handlePlayerAction r g a i = Inr g'"
    and "\<forall>k. a \<noteq> Discard k" "a \<noteq> NextGame" "a \<noteq> ResetGame"
  shows "currentPlayerIndex g' = currentPlayerIndex g"
proof (cases a)
  case (Draw fd mi)
  with assms(1) show ?thesis
    by (auto simp: handlePlayerAction_def handleDraw_def handleDrawWith_def moduleScope_def Let_def setCurrentPlayer_def
        split: if_splits option.splits sum.splits prod.splits)
next
  case (Discard k)
  with assms(2) show ?thesis by simp
next
  case (Meld idxs)
  with assms(1) show ?thesis
    by (auto simp: handlePlayerAction_def handleMeld_def handleTongits_def Let_def
        setCurrentPlayer_def currentPlayer_def split: if_splits option.splits)
next
  case (Sapaw tp tm idxs)
  with assms(1) show ?thesis
    by (auto simp: handlePlayerAction_def handleSapaw_def Let_def
        split: if_splits option.splits)
next
  case CallDraw
  with assms(1) show ?thesis
    by (auto simp: handlePlayerAction_def handleCallDraw_def Let_def
        split: if_splits option.splits)
next
  case (UpdateSelectedIndices x)
  with assms(1) show ?thesis by (auto simp: handlePlayerAction_def)
next
  case AutoSort
  with assms(1) show ?thesis
    by (auto simp: handlePlayerAction_def handleAutoSort_def split: option.splits)
next
  case Shuffle
  with assms(1) show ?thesis
    by (auto simp: handlePlayerAction_def handleShuffle_def split: option.splits)
next
  case NextGame
  with assms(3) show ?thesis by simp
next
  case ResetGame
  with assms(4) show ?thesis by simp
next
  case Unknown
  with assms(1) show ?thesis by (auto simp: handlePlayerAction_def)
qed

section \<open>Claims about drawing\<close>

text \<open>
  A shuffle that deals the ten of diamonds and the ten of clubs to seat 1 and the ten
  of spades to seat 0, and the state after seat 0 has discarded that ten.
\<close>

definition tensRng :: rng where
  "tensRng i = (if i = 50 then 22 else i)"

definition tenDiscardedState :: game where
  "tenDiscardedState =
     stateAfter (startGame tensRng exampleLobby) [(identityRng, ''s0'', Discard 1)]"


text \<open>
  C6. The claim lets a draw from the discard pile go through when the top discard
  forms a meld with two hand cards, and has the meld named by the meld indices exposed
  at once. At that point \<^verbatim>\<open>handleDraw\<close> calls \<^verbatim>\<open>canFormMeldWithCard\<close>, a name that
  \<^verbatim>\<open>server.mjs\<close> does not import: the handler raises a ReferenceError and has changed
  nothing. After seat 0 has discarded the ten of spades it is seat 1's turn and no card
  has been drawn; seat 1 holds the ten of diamonds at index 0 and the ten of clubs at
  index 5. \<^verbatim>\<open>canFormMeldWithCard\<close> of \<^verbatim>\<open>card-utils.mjs\<close> finds the two, and the three
  tens validate as a meld. Seat 1's draw from the discard pile, with these meld indices
  or with none, raises a ReferenceError and leaves the session as it was: the ten stays
  on the pile, no meld is exposed, and \<open>hasDrawnThisTurn\<close> stays false.
\<close>

theorem pile_draw_raises_ReferenceError:
  "turnView tenDiscardedState = (1, False, True, [Some (createCard Spades R10)]) \<and>
   map pid (players tenDiscardedState) = [''s0'', ''s1'', ''s2''] \<and>
   map (nthJs (hand (players tenDiscardedState ! 1))) [0, 5]
     = [Some (createCard Diamonds R10), Some (createCard Clubs R10)] \<and>
   canFormMeldWithCard (Some (createCard Spades R10)) (hand (players tenDiscardedState ! 1))
     = Inr (True, [0, 5]) \<and>
   isValidMeld (map (nthJs (hand (players tenDiscardedState ! 1))) [0, 5]
                @ [Some (createCard Spades R10)]) \<and>
   onPlayerAction identityRng tenDiscardedState ''s1'' (Draw False [0, 5])
     = Inl (ReferenceError, tenDiscardedState) \<and>
   onPlayerAction identityRng tenDiscardedState ''s1'' (Draw False [])
     = Inl (ReferenceError, tenDiscardedState)"
  by code_simp

section \<open>Card conservation\<close>

text \<open>
  All the cards a player holds, and all the slots of the table: the deck, the discard
  pile, and every player's hand, exposed melds and secret melds. The session is
  \<open>conserved\<close> when these slots are, as a multiset, the 52 cards of \<open>orderedDeck\<close>.
\<close>

definition playerCards :: "player \<Rightarrow> card list" where
  "playerCards p = hand p @ concat (exposedMelds p) @ concat (secretMelds p)"

definition tableCards :: "game \<Rightarrow> card option list" where
  "tableCards g =
     map Some (deck g) @ discardPile g @ map Some (concat (map playerCards (players g)))"

definition conserved :: "game \<Rightarrow> bool" where
  "conserved g = (mset (tableCards g) = mset (map Some orderedDeck))"

text \<open>The cards of all players, and how an update of one player changes them.\<close>

definition allPlayerCards :: "player list \<Rightarrow> card multiset" where
  "allPlayerCards ps = mset (concat (map playerCards ps))"

lemma mset_tableCards:
  "mset (tableCards g) =
     image_mset Some (mset (deck g)) + mset (discardPile g) +
     image_mset Some (allPlayerCards (players g))"
  by (simp add: tableCards_def allPlayerCards_def)

lemma allPlayerCards_update:
  "i < length ps \<Longrightarrow>
   allPlayerCards (ps[i := q]) + mset (playerCards (ps ! i)) = allPlayerCards ps + mset (playerCards q)"
proof (induction ps arbitrary: i)
  case Nil
  then show ?case by simp
next
  case (Cons x xs)
  show ?case
  proof (cases i)
    case 0
    then show ?thesis by (simp add: allPlayerCards_def)
  next
    case (Suc k)
    with Cons.prems Cons.IH[of k] show ?thesis by (simp add: allPlayerCards_def)
  qed
qed

lemma allPlayerCards_update_same:
  "i < length ps \<Longrightarrow> mset (playerCards q) = mset (playerCards (ps ! i)) \<Longrightarrow>
   allPlayerCards (ps[i := q]) = allPlayerCards ps"
  using allPlayerCards_update[of i ps q] by simp

lemma allPlayerCards_update_add:
  "i < length ps \<Longrightarrow> mset (playerCards q) = mset (playerCards (ps ! i)) + D \<Longrightarrow>
   allPlayerCards (ps[i := q]) = allPlayerCards ps + D"
  using allPlayerCards_update[of i ps q] by simp

lemma allPlayerCards_update_sub:
  "i < length ps \<Longrightarrow> mset (playerCards q) + D = mset (playerCards (ps ! i)) \<Longrightarrow>
   allPlayerCards (ps[i := q]) + D = allPlayerCards ps"
proof -
  assume i: "i < length ps" and q: "mset (playerCards q) + D = mset (playerCards (ps ! i))"
  from allPlayerCards_update[OF i, of q] q
  have "allPlayerCards (ps[i := q]) + (mset (playerCards q) + D)
        = allPlayerCards ps + mset (playerCards q)" by simp
  then have "(allPlayerCards (ps[i := q]) + D) + mset (playerCards q)
        = allPlayerCards ps + mset (playerCards q)" by (simp add: ac_simps)
  then show ?thesis by (simp only: add_right_cancel)
qed

lemma allPlayerCards_map:
  "(\<And>p. p \<in> set ps \<Longrightarrow> mset (playerCards (f p)) = mset (playerCards p)) \<Longrightarrow>
   allPlayerCards (map f ps) = allPlayerCards ps"
  by (induction ps) (auto simp: allPlayerCards_def)

lemma mset_swap_list:
  "i < length xs \<Longrightarrow> j < length xs \<Longrightarrow> mset (swap i j xs) = mset xs"
  unfolding swap_def using mset_swap[of j xs i] by simp

lemma length_swap [simp]: "length (swap i j xs) = length xs"
  by (simp add: swap_def)

lemma shuffleLoop_mset: "n < length xs \<or> n = 0 \<Longrightarrow> mset (shuffleLoop r n xs) = mset xs"
proof (induction n arbitrary: xs)
  case 0
  then show ?case by simp
next
  case (Suc n)
  then have n: "Suc n < length xs" by simp
  have j: "r (Suc n) mod (Suc n + 1) < length xs"
    using n by (metis Suc_eq_plus1 less_Suc_eq_le mod_less_divisor order_le_less_trans zero_less_Suc)
  have "mset (shuffleLoop r n (swap (Suc n) (r (Suc n) mod (Suc n + 1)) xs))
        = mset (swap (Suc n) (r (Suc n) mod (Suc n + 1)) xs)"
    using n by (intro Suc.IH) simp
  with mset_swap_list[OF n j] show ?case by simp
qed

lemma shuffleDeck_mset: "mset (shuffleDeck r xs) = mset xs"
  unfolding shuffleDeck_def by (intro shuffleLoop_mset) (cases xs; simp)

lemma createDeck_mset: "mset (createDeck r) = mset orderedDeck"
  by (simp add: createDeck_def shuffleDeck_mset)

lemma fold_invariant:
  "(\<And>x s. x \<in> set xs \<Longrightarrow> I s \<Longrightarrow> I (f x s)) \<Longrightarrow> I s \<Longrightarrow> I (fold f xs s)"
  by (induction xs arbitrary: s) auto

lemma mset_concat_update_append:
  "j < length hs \<Longrightarrow> mset (concat (hs[j := hs ! j @ [c]])) = mset (concat hs) + {#c#}"
proof (induction hs arbitrary: j)
  case Nil
  then show ?case by simp
next
  case (Cons h hs)
  then show ?case by (cases j) auto
qed

lemma mset_concat_update_extend:
  "j < length hs \<Longrightarrow> mset (concat (hs[j := hs ! j @ cs])) = mset (concat hs) + mset cs"
proof (induction hs arbitrary: j)
  case Nil
  then show ?case by simp
next
  case (Cons h hs)
  then show ?case by (cases j) auto
qed

lemma mset_butlast_last: "xs \<noteq> [] \<Longrightarrow> mset (butlast xs) + {#last xs#} = mset xs"
proof -
  assume "xs \<noteq> []"
  then have "mset xs = mset (butlast xs @ [last xs])" by simp
  then show ?thesis by simp
qed

text \<open>The invariant of the dealing loops.\<close>

definition dealt :: "card list \<Rightarrow> nat \<Rightarrow> card list list \<times> card list \<Rightarrow> bool" where
  "dealt deck0 n st =
     (case st of (hands, rem) \<Rightarrow>
        length hands = n \<and> mset (concat hands) + mset rem = mset deck0)"

lemma dealOne_dealt: "j < n \<Longrightarrow> dealt deck0 n st \<Longrightarrow> dealt deck0 n (dealOne j st)"
proof -
  assume j: "j < n" and d: "dealt deck0 n st"
  obtain hands rem where st: "st = (hands, rem)" by (cases st)
  show ?thesis
  proof (cases "rem = []")
    case True
    with d st show ?thesis by (simp add: dealOne_def)
  next
    case False
    from d st have l: "length hands = n" and m: "mset (concat hands) + mset rem = mset deck0"
      by (simp_all add: dealt_def)
    have "mset (concat hands) + {#last rem#} + mset (butlast rem)
          = mset (concat hands) + (mset (butlast rem) + {#last rem#})"
      by (simp add: ac_simps)
    also have "\<dots> = mset (concat hands) + mset rem"
      by (simp only: mset_butlast_last[OF False])
    also have "\<dots> = mset deck0" by (rule m)
    finally have "mset (concat hands) + {#last rem#} + mset (butlast rem) = mset deck0" .
    with st j False l show ?thesis
      by (simp add: dealOne_def dealt_def mset_concat_update_append)
  qed
qed

lemma dealCards_dealt: "dealt deck0 n (dealCards deck0 n k)"
  unfolding dealCards_def
proof (rule fold_invariant)
  show "dealt deck0 n (replicate n [], deck0)" by (simp add: dealt_def)
next
  fix x s assume "dealt deck0 n s"
  then show "dealt deck0 n (fold dealOne [0..<n] s)"
    by (rule fold_invariant[rotated]) (simp add: dealOne_dealt)
qed

lemma pop_mset:
  "mset (case fst (pop xs) of None \<Rightarrow> h | Some c \<Rightarrow> h @ [c]) + mset (snd (pop xs))
   = mset h + mset xs"
proof (cases "xs = []")
  case True
  then show ?thesis by (simp add: pop_def)
next
  case False
  with mset_butlast_last[OF False] show ?thesis by (simp add: pop_def)
qed

lemma conserved_alt:
  "conserved g =
     (image_mset Some (mset (deck g)) + mset (discardPile g) +
      image_mset Some (allPlayerCards (players g)) = mset (map Some orderedDeck))"
  by (simp add: conserved_def mset_tableCards)

lemma currentPlayer_Some:
  "currentPlayer g = Some p \<Longrightarrow>
   currentPlayerIndex g < length (players g) \<and> players g ! currentPlayerIndex g = p"
  by (auto simp: currentPlayer_def dest: nthNat_Some)

lemma playerCards_hand_add:
  "mset (playerCards (p\<lparr>hand := hand p @ [c]\<rparr>)) = mset (playerCards p) + {#c#}"
  by (simp add: playerCards_def)

lemma conserved_no_undefined: "conserved g \<Longrightarrow> None \<notin> set (discardPile g)"
proof
  assume c: "conserved g" and n: "None \<in> set (discardPile g)"
  then have "None \<in> set (tableCards g)" by (simp add: tableCards_def)
  then have "None \<in># mset (tableCards g)" by simp
  with c have "None \<in># mset (map Some orderedDeck)" by (simp add: conserved_def)
  then show False by auto
qed

lemma handleDraw_deck_conserved:
  assumes c: "conserved g" and p: "currentPlayer g = Some p" and d: "deck g \<noteq> []"
  shows "conserved ((setCurrentPlayer g (p\<lparr>hand := hand p @ [last (deck g)]\<rparr>))
                  \<lparr>deck := butlast (deck g), hasDrawnThisTurn := True\<rparr>)"
proof -
  note i = currentPlayer_Some[OF p]
  have "allPlayerCards ((players g)[currentPlayerIndex g := p\<lparr>hand := hand p @ [last (deck g)]\<rparr>])
        = allPlayerCards (players g) + {#last (deck g)#}"
    using i by (intro allPlayerCards_update_add) (simp_all add: playerCards_hand_add)
  moreover have "mset (deck g) = mset (butlast (deck g)) + {#last (deck g)#}"
    using mset_butlast_last[OF d] by simp
  ultimately show ?thesis using c
    by (simp add: conserved_alt setCurrentPlayer_def)
qed

lemma sessionOf_Inr [simp]: "sessionOf (Inr g) = g"
  by (simp add: sessionOf_def)

lemma sessionOf_Inl [simp]: "sessionOf (Inl (e, g)) = g"
  by (simp add: sessionOf_def)

lemma handleDraw_conserved:
  assumes c: "conserved g" and p: "currentPlayer g = Some p"
  shows "conserved (sessionOf (handleDraw g fd mi))"
proof (cases "hasDrawnThisTurn g")
  case True
  with c show ?thesis by (simp add: handleDraw_def handleDrawWith_def)
next
  case nd: False
  show ?thesis
  proof (cases "\<not> fd \<and> discardPile g \<noteq> []")
    case True
    with nd c show ?thesis by (simp add: handleDraw_pile_throws)
  next
    case False
    show ?thesis
    proof (cases "deck g = []")
      case True
      with nd False c show ?thesis by (auto simp: handleDraw_def handleDrawWith_def)
    next
      case d: False
      from handleDraw_deck_conserved[OF c p d] nd False d p show ?thesis
        by (auto simp: handleDraw_def handleDrawWith_def)
    qed
  qed
qed

lemma handleDiscard_conserved:
  assumes c: "conserved g" and p: "currentPlayer g = Some p"
    and k: "0 \<le> k" "k < int (length (hand p))"
  shows "\<exists>g'. handleDiscard g k = Inr g' \<and> conserved g'"
proof (cases "\<not> hasDrawnThisTurn g \<and> currentPlayerIndex g \<noteq> 0")
  case True
  with c show ?thesis by (auto simp: handleDiscard_def)
next
  case False
  note i = currentPlayer_Some[OF p]
  from k have kn: "nat k < length (hand p)" by simp
  let ?q = "p\<lparr>hand := removeAt (nat k) (hand p), turnsPlayed := turnsPlayed p + 1\<rparr>"
  have "mset (playerCards ?q) + {#hand p ! nat k#} = mset (playerCards p)"
    using mset_removeAt[OF kn] by (simp add: playerCards_def)
  with i have "allPlayerCards ((players g)[currentPlayerIndex g := ?q]) + {#hand p ! nat k#}
        = allPlayerCards (players g)"
    by (intro allPlayerCards_update_sub) simp_all
  then have "image_mset Some (allPlayerCards (players g)) =
      image_mset Some (allPlayerCards ((players g)[currentPlayerIndex g := ?q]))
        + {#Some (hand p ! nat k)#}"
    by (metis image_mset_single image_mset_union)
  with c have "image_mset Some (mset (deck g)) + mset (discardPile g) +
      (image_mset Some (allPlayerCards ((players g)[currentPlayerIndex g := ?q]))
        + {#Some (hand p ! nat k)#}) = mset (map Some orderedDeck)"
    by (simp only: conserved_alt)
  then have "conserved ((setCurrentPlayer g ?q)
                  \<lparr>discardPile := discardPile g @ [Some (hand p ! nat k)],
                   currentPlayerIndex := (currentPlayerIndex g + 1) mod length (players g),
                   hasDrawnThisTurn := False,
                   selectedCardIndices := []\<rparr>)"
    by (simp add: conserved_alt setCurrentPlayer_def ac_simps)
  with False p k kn show ?thesis
    by (auto simp: handleDiscard_def Let_def splice1_inbounds spliced1_inbounds)
qed

lemma handleTongits_conserved:
  assumes c: "conserved g" and p: "currentPlayer g = Some p"
  shows "\<exists>g'. handleTongits g = Inr g' \<and> conserved g'"
proof -
  note i = currentPlayer_Some[OF p]
  let ?cur = "p\<lparr>score := 0, consecutiveWins := consecutiveWins p + 1\<rparr>"
  let ?f = "\<lambda>q. if pid q \<noteq> pid ?cur
                 then q\<lparr>score := calculateHandPoints (hand q) [], consecutiveWins := 0\<rparr> else q"
  have "allPlayerCards (map ?f ((players g)[currentPlayerIndex g := ?cur]))
        = allPlayerCards ((players g)[currentPlayerIndex g := ?cur])"
    by (intro allPlayerCards_map) (simp add: playerCards_def)
  also have "\<dots> = allPlayerCards (players g)"
    using i by (intro allPlayerCards_update_same) (simp_all add: playerCards_def)
  finally show ?thesis using c p
    by (simp add: handleTongits_def Let_def conserved_alt setCurrentPlayer_def)
qed

lemma handleMeld_conserved:
  assumes c: "conserved g" and p: "currentPlayer g = Some p" and d: "distinct idxs"
  shows "\<exists>g'. handleMeld g idxs = Inr g' \<and> conserved g'"
proof (cases "isValidMeld (map (nthJs (hand p)) idxs)")
  case False
  with c p show ?thesis by (simp add: handleMeld_def)
next
  case True
  note i = currentPlayer_Some[OF p]
  let ?p1 = "p\<lparr>exposedMelds := exposedMelds p @ [definedCards (map (nthJs (hand p)) idxs)],
                hand := removeIndices (hand p) idxs\<rparr>"
  let ?g1 = "(setCurrentPlayer g ?p1)\<lparr>selectedCardIndices := []\<rparr>"
  from True have "isValidMeld ([] @ map (nthJs (hand p)) idxs @ [])" by simp
  from removeIndices_meld[OF d this]
  have "mset (playerCards ?p1) = mset (playerCards p)"
    by (simp add: playerCards_def)
  with i have "allPlayerCards ((players g)[currentPlayerIndex g := ?p1]) = allPlayerCards (players g)"
    by (intro allPlayerCards_update_same) simp_all
  with c have c1: "conserved ?g1" by (simp add: conserved_alt setCurrentPlayer_def)
  have p1: "currentPlayer ?g1 = Some ?p1"
    using i by (simp add: currentPlayer_def setCurrentPlayer_def nthNat_def)
  show ?thesis
  proof (cases "removeIndices (hand p) idxs = []")
    case False
    with True p c1 show ?thesis by (simp add: handleMeld_def Let_def)
  next
    case e: True
    from handleTongits_conserved[OF c1 p1] True p e show ?thesis
      by (simp add: handleMeld_def Let_def)
  qed
qed

lemma playerCards_flag [simp]: "playerCards (q\<lparr>isSapawed := b\<rparr>) = playerCards q"
  by (simp add: playerCards_def)

lemma handleSapaw_conserved:
  assumes c: "conserved g" and p: "currentPlayer g = Some p" and d: "distinct idxs"
    and t: "nthJs (players g) tp = Some t" and m: "nthJs (exposedMelds t) tm = Some meld"
  shows "\<exists>g'. handleSapaw g tp tm idxs = Inr g' \<and> conserved g'"
proof (cases "isValidMeld (map Some meld @ map (nthJs (hand p)) idxs)")
  case False
  with c p t m show ?thesis by (simp add: handleSapaw_def)
next
  case True
  note i = currentPlayer_Some[OF p]
  from nthJs_Some[OF t] have ti: "nat tp < length (players g)" "players g ! nat tp = t" by simp_all
  from nthJs_Some[OF m] have mi: "nat tm < length (exposedMelds t)" "exposedMelds t ! nat tm = meld"
    by simp_all
  let ?sc = "definedCards (map (nthJs (hand p)) idxs)"
  let ?t1 = "t\<lparr>exposedMelds := (exposedMelds t)[nat tm := meld @ ?sc]\<rparr>"
  let ?ps1 = "(players g)[nat tp := ?t1]"
  have dc: "definedCards (map Some meld @ map (nthJs (hand p)) idxs) = meld @ ?sc"
    by (simp add: definedCards_append)
  have "mset (concat ((exposedMelds t)[nat tm := exposedMelds t ! nat tm @ ?sc]))
        = mset (concat (exposedMelds t)) + mset ?sc"
    using mi(1) by (rule mset_concat_update_extend)
  then have "mset (playerCards ?t1) = mset (playerCards (players g ! nat tp)) + mset ?sc"
    using mi(2) ti(2) by (simp add: playerCards_def)
  with ti(1) have a1: "allPlayerCards ?ps1 = allPlayerCards (players g) + mset ?sc"
    by (intro allPlayerCards_update_add)
  let ?c1 = "?ps1 ! currentPlayerIndex g"
  have hc: "hand ?c1 = hand p"
    using i ti by (cases "nat tp = currentPlayerIndex g") simp_all
  let ?c2 = "?c1\<lparr>hand := removeIndices (hand ?c1) idxs\<rparr>"
  let ?ps2 = "?ps1[currentPlayerIndex g := ?c2]"
  from True have "isValidMeld (map Some meld @ map (nthJs (hand p)) idxs @ [])" by simp
  from removeIndices_meld[OF d this]
  have "mset (playerCards ?c2) + mset ?sc = mset (playerCards ?c1)"
    by (simp add: playerCards_def hc)
  with i have a2: "allPlayerCards ?ps2 + mset ?sc = allPlayerCards ?ps1"
    by (intro allPlayerCards_update_sub) simp_all
  let ?ps3 = "?ps2[nat tp := (?ps2 ! nat tp)\<lparr>isSapawed := True\<rparr>]"
  have a3: "allPlayerCards ?ps3 = allPlayerCards ?ps2"
    using ti(1) by (intro allPlayerCards_update_same) simp_all
  from a1 a2 have "allPlayerCards ?ps2 = allPlayerCards (players g)" by simp
  with a3 c have "conserved (g\<lparr>players := ?ps3, selectedCardIndices := []\<rparr>)"
    by (simp add: conserved_alt)
  moreover have "handleSapaw g tp tm idxs = Inr (g\<lparr>players := ?ps3, selectedCardIndices := []\<rparr>)"
    using True p t m i dc by (simp add: handleSapaw_def Let_def nthNat_def)
  ultimately show ?thesis by simp
qed

lemma find_own_score:
  "p \<in> set ps \<Longrightarrow> List.find (\<lambda>s. fst s = pid p) (map (\<lambda>p. (pid p, h p)) ps) \<noteq> None"
  by (auto simp: find_None_iff)

lemma handleCallDraw_conserved:
  assumes c: "conserved g" and ne: "players g \<noteq> []"
  shows "\<exists>g'. handleCallDraw g = Inr g' \<and> conserved g'"
proof -
  let ?sc = "map (\<lambda>p. (pid p, calculateHandPoints (hand p) [])) (players g)"
  from ne obtain w where w: "lowestScore ?sc = Some w"
    by (cases "players g") (auto simp: lowestScore_def)
  have all: "list_all (\<lambda>p. List.find (\<lambda>s. fst s = pid p) ?sc \<noteq> None) (players g)"
    unfolding list_all_iff using find_own_score by fast
  let ?f = "\<lambda>p. p\<lparr>score := (case List.find (\<lambda>s. fst s = pid p) ?sc of
                                              None \<Rightarrow> score p | Some s \<Rightarrow> snd s),
                                  consecutiveWins := (if pid p = fst w
                                                      then consecutiveWins p + 1 else 0)\<rparr>"
  have "allPlayerCards (map ?f (players g)) = allPlayerCards (players g)"
    by (intro allPlayerCards_map) (simp add: playerCards_def)
  with c w all show ?thesis
    by (simp add: handleCallDraw_def Let_def conserved_alt)
qed

lemma handleAutoSort_conserved:
  assumes c: "conserved g" and p: "currentPlayer g = Some p"
  shows "\<exists>g'. handleAutoSort g (currentPlayerIndex g) = Inr g' \<and> conserved g'"
proof -
  note i = currentPlayer_Some[OF p]
  let ?q = "p\<lparr>hand := sort_key (\<lambda>c. 13 * suitCollation (suit c) + rankCollation (rank c)) (hand p)\<rparr>"
  have "allPlayerCards ((players g)[currentPlayerIndex g := ?q]) = allPlayerCards (players g)"
    using i by (intro allPlayerCards_update_same) (simp_all add: playerCards_def)
  with c p show ?thesis
    by (simp add: handleAutoSort_def conserved_alt currentPlayer_def)
qed

lemma handleShuffle_conserved:
  assumes c: "conserved g" and p: "currentPlayer g = Some p"
  shows "\<exists>g'. handleShuffle r g (currentPlayerIndex g) = Inr g' \<and> conserved g'"
proof -
  note i = currentPlayer_Some[OF p]
  let ?q = "p\<lparr>hand := shuffleLoop r (length (hand p) - 1) (hand p)\<rparr>"
  have "mset (shuffleLoop r (length (hand p) - 1) (hand p)) = mset (hand p)"
    by (intro shuffleLoop_mset) (cases "hand p"; simp)
  then have "allPlayerCards ((players g)[currentPlayerIndex g := ?q]) = allPlayerCards (players g)"
    using i by (intro allPlayerCards_update_same) (simp_all add: playerCards_def)
  with c p show ?thesis
    by (simp add: handleShuffle_def conserved_alt currentPlayer_def)
qed

text \<open>
  The legal actions of the conservation claim, for the player whose turn it is: a
  draw, a discard with an index inside the hand, a meld or sapaw with pairwise distinct
  card indices inside the hand, and any of the other actions. A message from a socket
  that is not in turn is not constrained: the handler ignores it. A run is legal when
  every message the server handles is.
\<close>

definition inBounds :: "game \<Rightarrow> int list \<Rightarrow> bool" where
  "inBounds g indices =
     (case currentPlayer g of
        None \<Rightarrow> False
      | Some p \<Rightarrow> list_all (\<lambda>k. 0 \<le> k \<and> k < int (length (hand p))) indices)"

fun legalAction :: "game \<Rightarrow> action \<Rightarrow> bool" where
  "legalAction g (Draw fromDeck meldIndices) = True"
| "legalAction g (Discard cardIndex) = inBounds g [cardIndex]"
| "legalAction g (Meld cardIndices) = (distinct cardIndices \<and> inBounds g cardIndices)"
| "legalAction g (Sapaw targetPlayerIndex targetMeldIndex cardIndices) =
     (distinct cardIndices \<and> inBounds g cardIndices)"
| "legalAction g CallDraw = True"
| "legalAction g (UpdateSelectedIndices indices) = True"
| "legalAction g AutoSort = True"
| "legalAction g Shuffle = True"
| "legalAction g NextGame = True"
| "legalAction g ResetGame = True"
| "legalAction g Unknown = True"

definition inTurn :: "game \<Rightarrow> string \<Rightarrow> bool" where
  "inTurn g socketId =
     (findIndex (\<lambda>p. pid p = socketId) (players g) = Some (currentPlayerIndex g))"

fun legalRun :: "game \<Rightarrow> (rng \<times> string \<times> action) list \<Rightarrow> bool" where
  "legalRun g [] = True"
| "legalRun g ((r, socketId, act) # es) =
     ((if inTurn g socketId then legalAction g act else True) \<and>
      (case onPlayerAction r g socketId act of
         Inl e \<Rightarrow> True
       | Inr g1 \<Rightarrow> legalRun g1 es))"

lemma length3: "length xs = 3 \<Longrightarrow> \<exists>a b c. xs = [a, b, c]"
  by (cases xs; simp; cases "tl xs"; simp; cases "tl (tl xs)"; auto)

lemma deal_conserved:
  assumes len: "length ps = 3"
    and deal: "dealCards (createDeck r) 3 12 = (hands, rem)"
    and f: "\<And>index p. secretMelds (f index p) = [] \<and> exposedMelds (f index p) = [] \<and>
              hand (f index p) = dealtHand hands rem index"
  shows "image_mset Some (mset (deckAfterDeal ps rem)) +
         image_mset Some (allPlayerCards (map (\<lambda>(index, p). f index p) (enumerate 0 ps)))
         = mset (map Some orderedDeck)"
proof -
  from dealCards_dealt[of "createDeck r" 3 12] deal
  have hl: "length hands = 3" and hm: "mset (concat hands) + mset rem = mset orderedDeck"
    by (simp_all add: dealt_def createDeck_mset)
  from length3[OF len] obtain p0 p1 p2 where ps: "ps = [p0, p1, p2]" by blast
  from length3[OF hl] obtain h0 h1 h2 where hs: "hands = [h0, h1, h2]" by blast
  have en: "enumerate 0 ps = [(0, p0), (1, p1), (2, p2)]" by (simp add: ps)
  have "allPlayerCards (map (\<lambda>(index, p). f index p) (enumerate 0 ps)) + mset (deckAfterDeal ps rem)
        = mset (case fst (pop rem) of None \<Rightarrow> h0 | Some c \<Rightarrow> h0 @ [c]) + mset (snd (pop rem))
          + mset h1 + mset h2"
    by (simp add: en allPlayerCards_def playerCards_def f dealtHand_def hs nthNat_def
        deckAfterDeal_def ps)
  also have "\<dots> = mset h0 + mset rem + mset h1 + mset h2"
    by (simp only: pop_mset)
  also have "\<dots> = mset orderedDeck" using hm hs by (simp add: ac_simps)
  finally have "image_mset Some (allPlayerCards (map (\<lambda>(index, p). f index p) (enumerate 0 ps))
        + mset (deckAfterDeal ps rem)) = image_mset Some (mset orderedDeck)" by simp
  then show ?thesis by (simp add: ac_simps)
qed

lemma handleNextGame_conserved:
  assumes len: "length (players g) = 3"
  shows "conserved (handleNextGame r g)"
proof -
  obtain hands rem where deal: "dealCards (createDeck r) 3 12 = (hands, rem)"
    by (cases "dealCards (createDeck r) 3 12")
  from deal_conserved[OF len deal,
      of "\<lambda>index p. p\<lparr>hand := dealtHand hands rem index,
                                            exposedMelds := [], secretMelds := [],
                                            score := 0, isSapawed := False, points := 0,
                                            turnsPlayed := 0\<rparr>"] deal
  show ?thesis by (simp add: handleNextGame_def conserved_alt PLAYERS_REQUIRED_def)
qed

lemma handleResetGame_conserved:
  assumes len: "length (players g) = 3"
  shows "conserved (handleResetGame r g)"
  unfolding handleResetGame_def by (rule handleNextGame_conserved) (simp add: len)

lemma startGame_conserved:
  assumes len: "length (players g) = 3" and s: "\<forall>p \<in> set (players g). secretMelds p = []"
  shows "conserved (startGame r g)"
proof -
  obtain hands rem where deal: "dealCards (createDeck r) 3 12 = (hands, rem)"
    by (cases "dealCards (createDeck r) 3 12")
  let ?f = "\<lambda>index p. p\<lparr>hand := dealtHand hands rem index, exposedMelds := [], secretMelds := []\<rparr>"
  have same: "map (\<lambda>(index, p). p\<lparr>hand := dealtHand hands rem index, exposedMelds := []\<rparr>)
                  (enumerate 0 (players g))
              = map (\<lambda>(index, p). ?f index p) (enumerate 0 (players g))"
    using s by (intro map_cong) (auto simp: in_set_enumerate_eq)
  have "image_mset Some (mset (deckAfterDeal (players g) rem)) +
         image_mset Some (allPlayerCards (map (\<lambda>(index, p). ?f index p) (enumerate 0 (players g))))
         = mset (map Some orderedDeck)"
    by (rule deal_conserved[OF len deal]) simp
  then have "image_mset Some (mset (deckAfterDeal (players g) rem)) +
         image_mset Some (allPlayerCards
           (map (\<lambda>(index, p). p\<lparr>hand := dealtHand hands rem index, exposedMelds := []\<rparr>)
              (enumerate 0 (players g))))
         = mset (map Some orderedDeck)"
    by (simp only: same)
  with deal len show ?thesis
    by (simp add: startGame_def conserved_alt PLAYERS_REQUIRED_def)
qed

lemma conserved_firstPlayerHasPlayed [simp]:
  "conserved (g\<lparr>firstPlayerHasPlayed := b\<rparr>) = conserved g"
  by (simp add: conserved_def tableCards_def)

lemma conserved_selected [simp]:
  "conserved (g\<lparr>selectedCardIndices := s\<rparr>) = conserved g"
  by (simp add: conserved_def tableCards_def)

lemma inBounds_all:
  "currentPlayer g = Some p \<Longrightarrow> inBounds g idxs \<Longrightarrow> k \<in> set idxs \<Longrightarrow>
   0 \<le> k \<and> k < int (length (hand p))"
  by (auto simp: inBounds_def list_all_iff)

lemma handlePlayerAction_conserved:
  assumes c: "conserved g" and len: "length (players g) = 3"
    and p: "currentPlayer g = Some p" and legal: "legalAction g a"
  shows "conserved (sessionOf (handlePlayerAction r g a (currentPlayerIndex g)))"
proof (cases a)
  case (Draw fd mi)
  from handleDraw_conserved[OF c p, of fd mi] c Draw show ?thesis
    by (auto simp: handlePlayerAction_def)
next
  case (Discard k)
  with legal p have "0 \<le> k" "k < int (length (hand p))"
    using inBounds_all[of g p "[k]" k] by simp_all
  from handleDiscard_conserved[OF c p this] Discard show ?thesis
    by (auto simp: handlePlayerAction_def)
next
  case (Meld idxs)
  with legal have "distinct idxs" by simp
  from handleMeld_conserved[OF c p this] Meld show ?thesis
    by (auto simp: handlePlayerAction_def)
next
  case (Sapaw tp tm idxs)
  with legal have d: "distinct idxs" by simp
  show ?thesis
  proof (cases "nthJs (players g) tp")
    case None
    from handleSapaw_no_target[OF None] Sapaw c show ?thesis
      by (simp add: handlePlayerAction_def)
  next
    case t: (Some t)
    show ?thesis
    proof (cases "nthJs (exposedMelds t) tm")
      case None
      from handleSapaw_no_meld[OF t None] Sapaw c show ?thesis
        by (simp add: handlePlayerAction_def)
    next
      case (Some meld)
      from handleSapaw_conserved[OF c p d t Some] Sapaw show ?thesis
        by (auto simp: handlePlayerAction_def)
    qed
  qed
next
  case CallDraw
  from len have "players g \<noteq> []" by auto
  from handleCallDraw_conserved[OF c this] CallDraw show ?thesis
    by (auto simp: handlePlayerAction_def)
next
  case (UpdateSelectedIndices x)
  with c show ?thesis by (simp add: handlePlayerAction_def)
next
  case AutoSort
  with handleAutoSort_conserved[OF c p] show ?thesis by (auto simp: handlePlayerAction_def)
next
  case Shuffle
  with handleShuffle_conserved[OF c p, of r] show ?thesis by (auto simp: handlePlayerAction_def)
next
  case NextGame
  with handleNextGame_conserved[OF len, of r] show ?thesis by (simp add: handlePlayerAction_def)
next
  case ResetGame
  with handleResetGame_conserved[OF len, of r] show ?thesis by (simp add: handlePlayerAction_def)
next
  case Unknown
  with c show ?thesis by (simp add: handlePlayerAction_def)
qed

text \<open>A handler that throws has not touched the seats.\<close>

lemma handlePlayerAction_thrown:
  "handlePlayerAction r g a i = Inl (e, g') \<Longrightarrow> players g' = players g"
proof (cases a)
  case (Draw fd mi)
  assume "handlePlayerAction r g a i = Inl (e, g')"
  with Draw show ?thesis
    by (auto simp: handlePlayerAction_def handleDraw_def handleDrawWith_def moduleScope_def
        split: if_splits option.splits)
next
  case (Discard k)
  assume "handlePlayerAction r g a i = Inl (e, g')"
  with Discard show ?thesis
    by (auto simp: handlePlayerAction_def handleDiscard_def Let_def
        split: if_splits option.splits sum.splits)
next
  case (Meld idxs)
  assume "handlePlayerAction r g a i = Inl (e, g')"
  with Meld show ?thesis
    by (auto simp: handlePlayerAction_def handleMeld_def handleTongits_def Let_def
        setCurrentPlayer_def currentPlayer_def nthNat_def
        split: if_splits option.splits)
next
  case (Sapaw tp tm idxs)
  assume "handlePlayerAction r g a i = Inl (e, g')"
  with Sapaw show ?thesis
    by (auto simp: handlePlayerAction_def handleSapaw_def Let_def
        split: if_splits option.splits)
next
  case CallDraw
  assume "handlePlayerAction r g a i = Inl (e, g')"
  with CallDraw show ?thesis
    by (auto simp: handlePlayerAction_def handleCallDraw_def Let_def
        split: if_splits option.splits)
next
  case AutoSort
  assume "handlePlayerAction r g a i = Inl (e, g')"
  with AutoSort show ?thesis
    by (auto simp: handlePlayerAction_def handleAutoSort_def split: if_splits option.splits)
next
  case Shuffle
  assume "handlePlayerAction r g a i = Inl (e, g')"
  with Shuffle show ?thesis
    by (auto simp: handlePlayerAction_def handleShuffle_def split: if_splits option.splits)
qed (auto simp: handlePlayerAction_def split: if_splits)

lemma onPlayerAction_session_length:
  "length (players (sessionOf (onPlayerAction r g sid a))) = length (players g)"
proof (cases "onPlayerAction r g sid a")
  case (Inr g')
  with onPlayerAction_length[OF Inr] show ?thesis by simp
next
  case (Inl x)
  obtain e g' where x: "x = (e, g')" by (cases x)
  with Inl have "handlePlayerAction r g a (currentPlayerIndex g) = Inl (e, g')"
    by (auto simp: onPlayerAction_def split: option.splits if_splits)
  from handlePlayerAction_thrown[OF this] Inl x show ?thesis by simp
qed

lemma onPlayerAction_conserved:
  assumes c: "conserved g" and len: "length (players g) = 3"
    and legal: "if inTurn g sid then legalAction g a else True"
  shows "conserved (sessionOf (onPlayerAction r g sid a)) \<and>
         length (players (sessionOf (onPlayerAction r g sid a))) = 3"
proof (cases "inTurn g sid")
  case False
  with c len show ?thesis
    by (auto simp: onPlayerAction_def inTurn_def split: option.splits)
next
  case True
  then have f: "findIndex (\<lambda>p. pid p = sid) (players g) = Some (currentPlayerIndex g)"
    by (simp add: inTurn_def)
  from findIndex_Some[OF f] have "currentPlayer g = Some (players g ! currentPlayerIndex g)"
    by (simp add: currentPlayer_def nthNat_def)
  from handlePlayerAction_conserved[OF c len this, of a r] legal True
  have "conserved (sessionOf (handlePlayerAction r g a (currentPlayerIndex g)))" by simp
  with f have "conserved (sessionOf (onPlayerAction r g sid a))"
    by (simp add: onPlayerAction_def)
  with onPlayerAction_session_length[of r g sid a] len show ?thesis by simp
qed

lemma run_conserved:
  "conserved g \<Longrightarrow> length (players g) = 3 \<Longrightarrow> legalRun g evs \<Longrightarrow>
   conserved (sessionOf (run g evs))"
proof (induction evs arbitrary: g)
  case Nil
  then show ?case by simp
next
  case (Cons ev es)
  obtain r sid a where ev: "ev = (r, sid, a)" by (cases ev) auto
  from Cons.prems(3) ev have legal: "if inTurn g sid then legalAction g a else True" by simp
  note step = onPlayerAction_conserved[OF Cons.prems(1,2) legal, of r]
  show ?case
  proof (cases "onPlayerAction r g sid a")
    case (Inl x)
    with step ev show ?thesis by simp
  next
    case (Inr g1)
    with step have g1: "conserved g1" "length (players g1) = 3" by simp_all
    from Cons.prems(3) ev Inr have "legalRun g1 es" by simp
    from Cons.IH[OF g1 this] Inr ev show ?thesis by simp
  qed
qed

lemma legalRun_take: "legalRun g evs \<Longrightarrow> legalRun g (take n evs)"
proof (induction evs arbitrary: g n)
  case Nil
  then show ?case by simp
next
  case (Cons ev es)
  obtain r sid a where ev: "ev = (r, sid, a)" by (cases ev) auto
  show ?case
  proof (cases n)
    case 0
    then show ?thesis by simp
  next
    case (Suc m)
    with Cons ev show ?thesis by (auto split: sum.splits)
  qed
qed

lemma orderedDeck_complete: "distinct orderedDeck \<and> length orderedDeck = 52"
  by code_simp

text \<open>
  C1. From a freshly started three-player session, at every point of every run of
  legal actions, whether the handlers have returned or one of them has thrown, the
  deck, the discard pile, the hands and the exposed and secret melds together hold
  exactly the 52 distinct cards of the standard deck.
\<close>

theorem card_conservation:
  assumes "legalRun (startGame r0 (joinGame (joinGame (joinGame (newGame i) s0 n0) s1 n1) s2 n2)) evs"
  shows "mset (tableCards (sessionOf
           (run (startGame r0 (joinGame (joinGame (joinGame (newGame i) s0 n0) s1 n1) s2 n2))
              (take n evs))))
         = mset (map Some orderedDeck) \<and>
         distinct orderedDeck \<and> length orderedDeck = 52"
proof -
  let ?lobby = "joinGame (joinGame (joinGame (newGame i) s0 n0) s1 n1) s2 n2"
  have len: "length (players ?lobby) = 3"
    by (simp add: joinGame_def newGame_def Let_def PLAYERS_REQUIRED_def)
  have sec: "\<forall>p \<in> set (players ?lobby). secretMelds p = []"
    by (simp add: joinGame_def newGame_def newPlayer_def Let_def PLAYERS_REQUIRED_def)
  have c: "conserved (startGame r0 ?lobby)" using startGame_conserved[OF len sec] .
  have l: "length (players (startGame r0 ?lobby)) = 3"
    using len by (simp add: startGame_def split: prod.splits)
  from run_conserved[OF c l legalRun_take[OF assms, of n]] orderedDeck_complete show ?thesis
    by (simp add: conserved_def)
qed

theorem card_conservation_witness:
  "legalRun (startGame kingsRng exampleLobby)
     [(identityRng, ''s0'', Meld [0, 1, 2]), (identityRng, ''s0'', Sapaw 0 0 [0]),
      (identityRng, ''s0'', Discard 0), (identityRng, ''s1'', Draw True []),
      (identityRng, ''s1'', Shuffle), (identityRng, ''s1'', Discard 3),
      (identityRng, ''s2'', Draw False [0, 0])] \<and>
   isl (run (startGame kingsRng exampleLobby)
     [(identityRng, ''s0'', Meld [0, 1, 2]), (identityRng, ''s0'', Sapaw 0 0 [0]),
      (identityRng, ''s0'', Discard 0), (identityRng, ''s1'', Draw True []),
      (identityRng, ''s1'', Shuffle), (identityRng, ''s1'', Discard 3),
      (identityRng, ''s2'', Draw False [0, 0])]) \<and>
   mset (tableCards (sessionOf (run (startGame kingsRng exampleLobby)
     [(identityRng, ''s0'', Meld [0, 1, 2]), (identityRng, ''s0'', Sapaw 0 0 [0]),
      (identityRng, ''s0'', Discard 0), (identityRng, ''s1'', Draw True []),
      (identityRng, ''s1'', Shuffle), (identityRng, ''s1'', Discard 3),
      (identityRng, ''s2'', Draw False [0, 0])])))
     = mset (map Some orderedDeck) \<and>
   distinct orderedDeck \<and> length orderedDeck = 52"
proof -
  let ?evs = "[(identityRng, ''s0'', Meld [0, 1, 2]), (identityRng, ''s0'', Sapaw 0 0 [0]),
      (identityRng, ''s0'', Discard 0), (identityRng, ''s1'', Draw True []),
      (identityRng, ''s1'', Shuffle), (identityRng, ''s1'', Discard 3),
      (identityRng, ''s2'', Draw False [0, 0])]"
  have l: "legalRun (startGame kingsRng exampleLobby) ?evs" by code_simp
  have t: "isl (run (startGame kingsRng exampleLobby) ?evs)" by code_simp
  have k: "take 7 ?evs = ?evs" by simp
  from l have "legalRun (startGame kingsRng
        (joinGame (joinGame (joinGame (newGame ''g'') ''s0'' ''ann'') ''s1'' ''bob'') ''s2'' ''cy''))
     ?evs"
    by (simp only: exampleLobby_def)
  from card_conservation[OF this, of 7] l t show ?thesis
    by (simp only: exampleLobby_def k simp_thms)
qed

end
